theory Spec2Isabelle
  imports Main
begin

section \<open>The DOM fragment the listbox works on\<close>

text \<open>
  The embedding follows \<^verbatim>\<open>src/js/listbox.js\<close>. DOM elements are objects that
  several places refer to, so they live in a store: a \<open>node\<close> is a reference, and
  \<open>elems\<close> gives the attributes of each node. An option of a listbox is an
  \<^verbatim>\<open>li\<close> element with \<^verbatim>\<open>role="option"\<close> (what \<^verbatim>\<open>createListItems\<close> builds and what
  \<^verbatim>\<open>addItems\<close> assumes); it carries an \<^verbatim>\<open>id\<close> attribute, a label, the two ARIA
  flags (absent, or a string) and the CSS class \<^verbatim>\<open>focused\<close>.

  The range of the embedding: strings are lists of 8-bit characters, so it follows the
  source on ASCII labels and on key codes below 256 (\<^verbatim>\<open>String.fromCharCode\<close> gives a
  16-bit code unit, and \<^verbatim>\<open>toUpperCase\<close> also maps letters outside ASCII); and every
  option has an \<^verbatim>\<open>id\<close> attribute, so \<^verbatim>\<open>getAttribute('id')\<close> is a string and never
  null.
\<close>

type_synonym node = nat

record element =
  eid :: string
  innerText :: string
  aria_selected :: "string option"
  aria_checked :: "string option"
  focused :: bool

text \<open>A control (up, down or move button) with the two attributes the code reads and writes.\<close>

record button =
  aria_disabled :: "string option"
  aria_keyshortcuts :: "string option"

text \<open>
  A document holds two listboxes, \<open>LB1\<close> before \<open>LB2\<close> in document order; either may
  name the other (or itself) as its sibling.
\<close>

datatype lb = LB1 | LB2

text \<open>Calls of the two handlers, \<^verbatim>\<open>handleFocusChange\<close> and \<^verbatim>\<open>handleItemChange\<close>.\<close>

datatype call = FocusChange node | ItemChange string "node list"

text \<open>What a JavaScript call can throw here: a null dereference, or \<^verbatim>\<open>insertBefore\<close>
  with a reference child that is not a child of the node.\<close>

datatype error = TypeError | NotFoundError

text \<open>
  The fields of \<^verbatim>\<open>aria.Listbox\<close>. \<open>children\<close> are the options of \<^verbatim>\<open>listboxNode\<close> in DOM
  order, \<open>aria_activedescendant\<close> is the attribute of the node, \<open>calls\<close> records the
  handler calls, oldest first.
\<close>

record listbox =
  children :: "node list"
  aria_activedescendant :: "string option"
  activeDescendant :: "string option"
  multiselectable :: bool
  moveUpDownEnabled :: bool
  siblingList :: "lb option"
  upButton :: "button option"
  downButton :: "button option"
  moveButton :: "button option"
  keysSoFar :: string
  calls :: "call list"

record document =
  elems :: "node \<Rightarrow> element"
  boxes :: "lb \<Rightarrow> listbox"
  fresh :: node

definition upd_elem :: "document \<Rightarrow> node \<Rightarrow> (element \<Rightarrow> element) \<Rightarrow> document" where
  "upd_elem d n f = d\<lparr>elems := (elems d)(n := f (elems d n))\<rparr>"

definition upd_box :: "document \<Rightarrow> lb \<Rightarrow> (listbox \<Rightarrow> listbox) \<Rightarrow> document" where
  "upd_box d b f = d\<lparr>boxes := (boxes d)(b := f (boxes d b))\<rparr>"

text \<open>JavaScript truthiness of a string-or-null, and its conversion to a string.\<close>

definition truthy :: "string option \<Rightarrow> bool" where
  "truthy s = (s \<noteq> None \<and> s \<noteq> Some [])"

definition js_string :: "string option \<Rightarrow> string" where
  "js_string s = (case s of None \<Rightarrow> ''null'' | Some t \<Rightarrow> t)"

definition all_options :: "document \<Rightarrow> node list" where
  "all_options d = children (boxes d LB1) @ children (boxes d LB2)"

text \<open>\<^verbatim>\<open>document.getElementById\<close>: the first element of the document, in document order,
  with that id; the empty id names no element.\<close>

definition getElementById :: "document \<Rightarrow> string option \<Rightarrow> node option" where
  "getElementById d s =
     (if js_string s = [] then None
      else find (\<lambda>n. eid (elems d n) = js_string s) (all_options d))"

definition parentOf :: "document \<Rightarrow> node \<Rightarrow> lb option" where
  "parentOf d n =
     (if n \<in> set (children (boxes d LB1)) then Some LB1
      else if n \<in> set (children (boxes d LB2)) then Some LB2
      else None)"

text \<open>The siblings after a node, nearest first, and those before it, nearest first.\<close>

definition following :: "document \<Rightarrow> node \<Rightarrow> node list" where
  "following d n =
     (case parentOf d n of None \<Rightarrow> []
      | Some b \<Rightarrow> tl (dropWhile (\<lambda>x. x \<noteq> n) (children (boxes d b))))"

definition preceding :: "document \<Rightarrow> node \<Rightarrow> node list" where
  "preceding d n =
     (case parentOf d n of None \<Rightarrow> []
      | Some b \<Rightarrow> rev (takeWhile (\<lambda>x. x \<noteq> n) (children (boxes d b))))"

definition nextElementSibling :: "document \<Rightarrow> node \<Rightarrow> node option" where
  "nextElementSibling d n = (case following d n of [] \<Rightarrow> None | x # _ \<Rightarrow> Some x)"

definition previousElementSibling :: "document \<Rightarrow> node \<Rightarrow> node option" where
  "previousElementSibling d n = (case preceding d n of [] \<Rightarrow> None | x # _ \<Rightarrow> Some x)"

text \<open>\<^verbatim>\<open>item.remove()\<close>: the node leaves its parent.\<close>

definition remove_node :: "document \<Rightarrow> node \<Rightarrow> document" where
  "remove_node d n =
     d\<lparr>boxes := (\<lambda>b. (boxes d b)\<lparr>children := removeAll n (children (boxes d b))\<rparr>)\<rparr>"

text \<open>\<^verbatim>\<open>listboxNode.append(item)\<close>: the node leaves its parent, if it has one, and becomes
  the last child.\<close>

definition append_child :: "document \<Rightarrow> lb \<Rightarrow> node \<Rightarrow> document" where
  "append_child d this n =
     upd_box (remove_node d n) this (\<lambda>b. b\<lparr>children := children b @ [n]\<rparr>)"

fun insert_before :: "node \<Rightarrow> node \<Rightarrow> node list \<Rightarrow> node list" where
  "insert_before new r [] = []"
| "insert_before new r (x # xs) =
     (if x = r then new # x # xs else x # insert_before new r xs)"

text \<open>\<^verbatim>\<open>listboxNode.insertBefore(new, ref)\<close>: throws when \<open>ref\<close> is not a child of the node.\<close>

definition insertBefore :: "document \<Rightarrow> lb \<Rightarrow> node \<Rightarrow> node \<Rightarrow> error + document" where
  "insertBefore d this new r =
     (if r \<notin> set (children (boxes d this)) then Inl NotFoundError
      else if new = r then Inr d
      else Inr (upd_box (remove_node d new) this
                  (\<lambda>b. b\<lparr>children := insert_before new r (children b)\<rparr>)))"

section \<open>The listbox\<close>

text \<open>The constructor: the node's options, its \<^verbatim>\<open>aria-activedescendant\<close> attribute and
  whether it has \<^verbatim>\<open>aria-multiselectable\<close>.\<close>

definition Listbox :: "node list \<Rightarrow> string option \<Rightarrow> bool \<Rightarrow> listbox" where
  "Listbox opts attr multi =
     \<lparr>children = opts, aria_activedescendant = attr, activeDescendant = attr,
      multiselectable = multi, moveUpDownEnabled = False, siblingList = None,
      upButton = None, downButton = None, moveButton = None, keysSoFar = [],
      calls = []\<rparr>"

definition defocusItem :: "document \<Rightarrow> lb \<Rightarrow> node option \<Rightarrow> document" where
  "defocusItem d this element =
     (case element of None \<Rightarrow> d
      | Some n \<Rightarrow>
          (let d1 = (if \<not> multiselectable (boxes d this)
                     then upd_elem d n (\<lambda>e. e\<lparr>aria_selected := None\<rparr>) else d)
           in upd_elem d1 n (\<lambda>e. e\<lparr>focused := False\<rparr>)))"

definition toggleSelectItem :: "document \<Rightarrow> lb \<Rightarrow> node \<Rightarrow> document" where
  "toggleSelectItem d this element =
     (if multiselectable (boxes d this) then
        (let d1 = upd_elem d element (\<lambda>e. e\<lparr>aria_selected :=
                     Some (if aria_selected e = Some ''true'' then ''false'' else ''true'')\<rparr>);
             d2 = upd_elem d1 element (\<lambda>e. e\<lparr>aria_checked :=
                     Some (if aria_checked e = Some ''true'' then ''false'' else ''true'')\<rparr>)
         in case moveButton (boxes d2 this) of None \<Rightarrow> d2
            | Some m \<Rightarrow>
                upd_box d2 this (\<lambda>b. b\<lparr>moveButton := Some (m\<lparr>aria_disabled :=
                  Some (if \<exists>n \<in> set (children (boxes d2 this)).
                             aria_selected (elems d2 n) = Some ''true''
                        then ''false'' else ''true'')\<rparr>)\<rparr>))
      else d)"

definition setDisabled :: "string \<Rightarrow> button option \<Rightarrow> button option" where
  "setDisabled v b = map_option (\<lambda>u. u\<lparr>aria_disabled := Some v\<rparr>) b"

text \<open>In \<^verbatim>\<open>checkUpDownButtons\<close> the branch for no active element calls
  \<^verbatim>\<open>setAttribute\<close> on both buttons without a null check; the other branch checks each.\<close>

definition checkUpDownButtons :: "document \<Rightarrow> lb \<Rightarrow> error + document" where
  "checkUpDownButtons d this =
     (let activeElement = getElementById d (activeDescendant (boxes d this)) in
      if \<not> moveUpDownEnabled (boxes d this) then Inr d
      else case activeElement of
        None \<Rightarrow>
          (if upButton (boxes d this) = None \<or> downButton (boxes d this) = None
           then Inl TypeError
           else Inr (upd_box d this (\<lambda>b. b\<lparr>
                  upButton := setDisabled ''true'' (upButton b),
                  downButton := setDisabled ''true'' (downButton b)\<rparr>)))
      | Some a \<Rightarrow>
          Inr (upd_box d this (\<lambda>b. b\<lparr>
            upButton := setDisabled
              (if previousElementSibling d a \<noteq> None then ''false'' else ''true'') (upButton b),
            downButton := setDisabled
              (if nextElementSibling d a \<noteq> None then ''false'' else ''true'') (downButton b)\<rparr>)))"

definition focusItem :: "document \<Rightarrow> lb \<Rightarrow> node \<Rightarrow> error + document" where
  "focusItem d this element =
     (let d1 = defocusItem d this (getElementById d (activeDescendant (boxes d this)));
          d2 = (if \<not> multiselectable (boxes d1 this)
                then upd_elem d1 element (\<lambda>e. e\<lparr>aria_selected := Some ''true''\<rparr>) else d1);
          d3 = upd_elem d2 element (\<lambda>e. e\<lparr>focused := True\<rparr>);
          d4 = upd_box d3 this (\<lambda>b. b\<lparr>aria_activedescendant := Some (eid (elems d3 element)),
                                       activeDescendant := Some (eid (elems d3 element))\<rparr>);
          d5 = (if \<not> multiselectable (boxes d4 this) then
                  (case moveButton (boxes d4 this) of None \<Rightarrow> d4
                   | Some m \<Rightarrow> upd_box d4 this
                       (\<lambda>b. b\<lparr>moveButton := Some (m\<lparr>aria_disabled := Some ''false''\<rparr>)\<rparr>))
                else d4)
      in case checkUpDownButtons d5 this of Inl e \<Rightarrow> Inl e
         | Inr d6 \<Rightarrow> Inr (upd_box d6 this (\<lambda>b. b\<lparr>calls := calls b @ [FocusChange element]\<rparr>)))"

definition focusFirstItem :: "document \<Rightarrow> lb \<Rightarrow> error + document" where
  "focusFirstItem d this =
     (case children (boxes d this) of [] \<Rightarrow> Inr d | firstItem # _ \<Rightarrow> focusItem d this firstItem)"

definition focusLastItem :: "document \<Rightarrow> lb \<Rightarrow> error + document" where
  "focusLastItem d this =
     (let itemList = children (boxes d this) in
      if itemList \<noteq> [] then focusItem d this (itemList ! (length itemList - 1)) else Inr d)"

subsection \<open>Adding and creating items\<close>

fun addItems_each :: "document \<Rightarrow> lb \<Rightarrow> node list \<Rightarrow> document" where
  "addItems_each d this [] = d"
| "addItems_each d this (item # items) =
     addItems_each
       (append_child (toggleSelectItem (defocusItem d this (Some item)) this item) this item)
       this items"

definition addItems :: "document \<Rightarrow> lb \<Rightarrow> node list \<Rightarrow> error + document" where
  "addItems d this items =
     (if items = [] then Inr d
      else
        (let d1 = addItems_each d this items in
         case (if \<not> truthy (activeDescendant (boxes d1 this))
               then focusItem d1 this (hd items) else Inr d1) of
           Inl e \<Rightarrow> Inl e
         | Inr d2 \<Rightarrow> Inr (upd_box d2 this (\<lambda>b. b\<lparr>calls := calls b @ [ItemChange ''added'' items]\<rparr>))))"

text \<open>The decimal numeral JavaScript appends in \<^verbatim>\<open>'item-' + counter\<close>.\<close>

fun string_of_nat :: "nat \<Rightarrow> string" where
  "string_of_nat n =
     (if n < 10 then [char_of (48 + n)]
      else string_of_nat (n div 10) @ [char_of (48 + n mod 10)])"

definition new_option :: "string \<Rightarrow> string \<Rightarrow> element" where
  "new_option uniqueId item =
     \<lparr>eid = uniqueId, innerText = item, aria_selected = Some ''true'',
      aria_checked = Some ''true'', focused = False\<rparr>"

fun createListItems_each ::
  "document \<Rightarrow> nat \<Rightarrow> string list \<Rightarrow> node list \<Rightarrow> document \<times> node list" where
  "createListItems_each d counter [] listItems = (d, listItems)"
| "createListItems_each d counter (item # items) listItems =
     createListItems_each
       (d\<lparr>elems := (elems d)(fresh d := new_option (''item-'' @ string_of_nat counter) item),
          fresh := Suc (fresh d)\<rparr>)
       (Suc counter) items (listItems @ [fresh d])"

definition createListItems :: "document \<Rightarrow> lb \<Rightarrow> string list \<Rightarrow> error + document" where
  "createListItems d this items =
     (if items = [] then Inr d
      else case createListItems_each d 0 items [] of
             (d1, listItems) \<Rightarrow> addItems d1 this listItems)"

subsection \<open>Deleting and moving items\<close>

definition clearActiveDescendant :: "document \<Rightarrow> lb \<Rightarrow> error + document" where
  "clearActiveDescendant d this =
     checkUpDownButtons
       (upd_box d this (\<lambda>b. b\<lparr>activeDescendant := None,
                               aria_activedescendant := Some ''null'',
                               moveButton := setDisabled ''true'' (moveButton b)\<rparr>))
       this"

fun deleteItems_each :: "document \<Rightarrow> lb \<Rightarrow> node list \<Rightarrow> error + document" where
  "deleteItems_each d this [] = Inr d"
| "deleteItems_each d this (item # items) =
     (let d1 = remove_node d item in
      case (if Some (eid (elems d1 item)) = activeDescendant (boxes d1 this)
            then clearActiveDescendant d1 this else Inr d1) of
        Inl e \<Rightarrow> Inl e
      | Inr d2 \<Rightarrow> deleteItems_each d2 this items)"

text \<open>
  \<^verbatim>\<open>deleteItems\<close> returns the removed items with the new state. In a single-select
  listbox with a truthy \<^verbatim>\<open>activeDescendant\<close> the array is
  \<^verbatim>\<open>[document.getElementById(...)]\<close>, whose only entry may be null; then
  \<^verbatim>\<open>item.remove()\<close> throws.
\<close>

definition itemsToDelete :: "document \<Rightarrow> lb \<Rightarrow> node option list option" where
  "itemsToDelete d this =
     (if multiselectable (boxes d this)
      then Some (map Some (filter (\<lambda>n. aria_selected (elems d n) = Some ''true'')
                             (children (boxes d this))))
      else if truthy (activeDescendant (boxes d this))
      then Some [getElementById d (activeDescendant (boxes d this))]
      else None)"

definition deleteItems :: "document \<Rightarrow> lb \<Rightarrow> error + (node list \<times> document)" where
  "deleteItems d this =
     (case itemsToDelete d this of
        None \<Rightarrow> Inr ([], d)
      | Some [] \<Rightarrow> Inr ([], d)
      | Some its \<Rightarrow>
          (if None \<in> set its then Inl TypeError
           else case deleteItems_each d this (map the its) of
                  Inl e \<Rightarrow> Inl e
                | Inr d1 \<Rightarrow>
                    Inr (map the its,
                         upd_box d1 this
                           (\<lambda>b. b\<lparr>calls := calls b @ [ItemChange ''removed'' (map the its)]\<rparr>))))"

definition moveUpItems :: "document \<Rightarrow> lb \<Rightarrow> error + document" where
  "moveUpItems d this =
     (if \<not> truthy (activeDescendant (boxes d this)) then Inr d
      else case getElementById d (activeDescendant (boxes d this)) of
        None \<Rightarrow> Inl TypeError
      | Some currentItem \<Rightarrow>
          (case previousElementSibling d currentItem of
             None \<Rightarrow> checkUpDownButtons d this
           | Some previousItem \<Rightarrow>
               (case insertBefore d this currentItem previousItem of
                  Inl e \<Rightarrow> Inl e
                | Inr d1 \<Rightarrow>
                    checkUpDownButtons
                      (upd_box d1 this
                         (\<lambda>b. b\<lparr>calls := calls b @ [ItemChange ''moved_up'' [currentItem]]\<rparr>))
                      this)))"

definition moveDownItems :: "document \<Rightarrow> lb \<Rightarrow> error + document" where
  "moveDownItems d this =
     (if \<not> truthy (activeDescendant (boxes d this)) then Inr d
      else case getElementById d (activeDescendant (boxes d this)) of
        None \<Rightarrow> Inl TypeError
      | Some currentItem \<Rightarrow>
          (case nextElementSibling d currentItem of
             None \<Rightarrow> checkUpDownButtons d this
           | Some nextItem \<Rightarrow>
               (case insertBefore d this nextItem currentItem of
                  Inl e \<Rightarrow> Inl e
                | Inr d1 \<Rightarrow>
                    checkUpDownButtons
                      (upd_box d1 this
                         (\<lambda>b. b\<lparr>calls := calls b @ [ItemChange ''moved_down'' [currentItem]]\<rparr>))
                      this)))"

definition moveItems :: "document \<Rightarrow> lb \<Rightarrow> error + document" where
  "moveItems d this =
     (case siblingList (boxes d this) of
        None \<Rightarrow> Inr d
      | Some sibling \<Rightarrow>
          (case deleteItems d this of
             Inl e \<Rightarrow> Inl e
           | Inr (itemsToMove, d1) \<Rightarrow> addItems d1 sibling itemsToMove))"

definition enableMoveUpDown :: "document \<Rightarrow> lb \<Rightarrow> button \<Rightarrow> button \<Rightarrow> document" where
  "enableMoveUpDown d this up down =
     upd_box d this (\<lambda>b. b\<lparr>moveUpDownEnabled := True, upButton := Some up,
                             downButton := Some down\<rparr>)"

definition setupMove :: "document \<Rightarrow> lb \<Rightarrow> button \<Rightarrow> lb \<Rightarrow> document" where
  "setupMove d this btn sibling =
     upd_box d this (\<lambda>b. b\<lparr>siblingList := Some sibling, moveButton := Some btn\<rparr>)"

subsection \<open>Keyboard and mouse\<close>

fun indexOf :: "node list \<Rightarrow> node \<Rightarrow> nat option" where
  "indexOf [] x = None"
| "indexOf (y # ys) x = (if y = x then Some 0 else map_option Suc (indexOf ys x))"

definition findNextOption :: "document \<Rightarrow> lb \<Rightarrow> node \<Rightarrow> node option" where
  "findNextOption d this currentOption =
     (let allOptions = children (boxes d this) in
      case indexOf allOptions currentOption of
        None \<Rightarrow> None
      | Some currentOptionIndex \<Rightarrow>
          (if currentOptionIndex + 1 < length allOptions
           then Some (allOptions ! (currentOptionIndex + 1)) else None))"

definition findPreviousOption :: "document \<Rightarrow> lb \<Rightarrow> node \<Rightarrow> node option" where
  "findPreviousOption d this currentOption =
     (let allOptions = children (boxes d this) in
      case indexOf allOptions currentOption of
        None \<Rightarrow> None
      | Some currentOptionIndex \<Rightarrow>
          (if currentOptionIndex > 0
           then Some (allOptions ! (currentOptionIndex - 1)) else None))"

text \<open>\<^verbatim>\<open>toUpperCase\<close> on ASCII labels.\<close>

definition toUpperCase :: "string \<Rightarrow> string" where
  "toUpperCase s =
     map (\<lambda>c. if 97 \<le> (of_char c :: nat) \<and> (of_char c :: nat) \<le> 122
               then char_of ((of_char c :: nat) - 32) else c) s"

text \<open>\<^verbatim>\<open>label && label.toUpperCase().indexOf(keysSoFar) === 0\<close>\<close>

definition label_matches :: "string \<Rightarrow> string \<Rightarrow> bool" where
  "label_matches keys label =
     (label \<noteq> [] \<and> take (length keys) (toUpperCase label) = keys)"

definition findMatchInRange ::
  "document \<Rightarrow> lb \<Rightarrow> node list \<Rightarrow> nat \<Rightarrow> nat \<Rightarrow> node option" where
  "findMatchInRange d this list startIndex endIndex =
     find (\<lambda>n. label_matches (keysSoFar (boxes d this)) (innerText (elems d n)))
       (map (\<lambda>n. list ! n) [startIndex..<endIndex])"

text \<open>The loop of \<^verbatim>\<open>findItemToFocus\<close> that looks for the active descendant: the last
  index whose id equals it, 0 when there is none.\<close>

definition activeIndex :: "document \<Rightarrow> lb \<Rightarrow> node list \<Rightarrow> nat" where
  "activeIndex d this itemList =
     fold (\<lambda>i searchIndex.
             if Some (eid (elems d (itemList ! i))) = activeDescendant (boxes d this)
             then i else searchIndex)
          [0..<length itemList] 0"

text \<open>\<^verbatim>\<open>findItemToFocus\<close> appends the character of the key to \<^verbatim>\<open>keysSoFar\<close> and returns
  the match with the new state. \<open>searchIndex\<close> is a local variable that starts at 0 on
  every call. The timer that \<^verbatim>\<open>clearKeysSoFarAfterDelay\<close> starts is the separate step
  \<open>keyClear\<close>.\<close>

definition findItemToFocus :: "document \<Rightarrow> lb \<Rightarrow> nat \<Rightarrow> node option \<times> document" where
  "findItemToFocus d this k =
     (let itemList = children (boxes d this);
          searchIndex = (if keysSoFar (boxes d this) = []
                         then activeIndex d this itemList else 0);
          d1 = upd_box d this (\<lambda>b. b\<lparr>keysSoFar := keysSoFar b @ [char_of k]\<rparr>)
      in case findMatchInRange d1 this itemList (searchIndex + 1) (length itemList) of
           Some nextMatch \<Rightarrow> (Some nextMatch, d1)
         | None \<Rightarrow> (findMatchInRange d1 this itemList 0 searchIndex, d1))"

definition keyClear :: "document \<Rightarrow> lb \<Rightarrow> document" where
  "keyClear d this = upd_box d this (\<lambda>b. b\<lparr>keysSoFar := []\<rparr>)"

text \<open>
  The constants of \<^verbatim>\<open>aria.KeyCode\<close> come from \<^verbatim>\<open>/js/toolbar.js\<close>, outside this file. The
  key of an event is taken as already classified against them; \<open>Other k\<close> is a code
  \<open>k\<close> that equals none of the named constants.
\<close>

datatype keycode =
  PAGE_UP | PAGE_DOWN | UP | DOWN | HOME | END | SPACE | BACKSPACE | DELETE | RETURN
| Other nat

record event =
  key :: keycode
  ctrlKey :: bool

text \<open>\<^verbatim>\<open>keyshortcuts.indexOf(s) === -1\<close> is the negation of this.\<close>

fun includes_string :: "string \<Rightarrow> string \<Rightarrow> bool" where
  "includes_string [] s = (s = [])"
| "includes_string (c # cs) s =
     (take (length s) (c # cs) = s \<or> includes_string cs s)"

text \<open>The two loops of the Backspace/Delete/Return case: the nearest following sibling
  whose \<^verbatim>\<open>aria-selected\<close> is not "true", else the nearest preceding one.\<close>

definition nextUnselected :: "document \<Rightarrow> node \<Rightarrow> node option" where
  "nextUnselected d nextItem =
     (case find (\<lambda>n. aria_selected (elems d n) \<noteq> Some ''true'') (following d nextItem) of
        Some n \<Rightarrow> Some n
      | None \<Rightarrow> find (\<lambda>n. aria_selected (elems d n) \<noteq> Some ''true'') (preceding d nextItem))"

definition moveKey :: "document \<Rightarrow> lb \<Rightarrow> keycode \<Rightarrow> node \<Rightarrow> error + document" where
  "moveKey d this k nextItem =
     (case moveButton (boxes d this) of
        None \<Rightarrow> Inr d
      | Some m \<Rightarrow>
          (case aria_keyshortcuts m of
             None \<Rightarrow> Inl TypeError
           | Some keyshortcuts \<Rightarrow>
               (if k = RETURN \<and> \<not> includes_string keyshortcuts ''Enter'' then Inr d
                else if (k = BACKSPACE \<or> k = DELETE)
                        \<and> \<not> includes_string keyshortcuts ''Delete'' then Inr d
                else case moveItems d this of
                       Inl e \<Rightarrow> Inl e
                     | Inr d1 \<Rightarrow>
                         (case nextUnselected d nextItem of
                            None \<Rightarrow> Inr d1
                          | Some n \<Rightarrow>
                              (if \<not> truthy (activeDescendant (boxes d1 this))
                               then focusItem d1 this n else Inr d1)))))"

definition arrowKey :: "document \<Rightarrow> lb \<Rightarrow> event \<Rightarrow> node \<Rightarrow> error + document" where
  "arrowKey d this evt nextItem =
     (if \<not> truthy (activeDescendant (boxes d this)) then focusItem d this nextItem
      else if moveUpDownEnabled (boxes d this) \<and> ctrlKey evt
      then (if key evt = UP then moveUpItems d this else moveDownItems d this)
      else case (if key evt = UP then findPreviousOption d this nextItem
                 else findNextOption d this nextItem) of
             None \<Rightarrow> Inr d
           | Some n \<Rightarrow> focusItem d this n)"

text \<open>
  \<^verbatim>\<open>checkKeyPress\<close>. \<^verbatim>\<open>evt.preventDefault()\<close> and \<^verbatim>\<open>updateScroll()\<close> touch only the
  browser's default action and the scroll offset, which the state does not hold.
\<close>

definition checkKeyPress :: "document \<Rightarrow> lb \<Rightarrow> event \<Rightarrow> error + document" where
  "checkKeyPress d this evt =
     (let firstItem = (case children (boxes d this) of [] \<Rightarrow> None | x # _ \<Rightarrow> Some x);
          found = (case getElementById d (activeDescendant (boxes d this)) of
                     Some n \<Rightarrow> Some n | None \<Rightarrow> firstItem)
      in case found of
           None \<Rightarrow> Inr d
         | Some nextItem \<Rightarrow>
             (case key evt of
                PAGE_UP \<Rightarrow> if moveUpDownEnabled (boxes d this) then moveUpItems d this else Inr d
              | PAGE_DOWN \<Rightarrow>
                  if moveUpDownEnabled (boxes d this) then moveDownItems d this else Inr d
              | UP \<Rightarrow> arrowKey d this evt nextItem
              | DOWN \<Rightarrow> arrowKey d this evt nextItem
              | HOME \<Rightarrow> focusFirstItem d this
              | END \<Rightarrow> focusLastItem d this
              | SPACE \<Rightarrow> Inr (toggleSelectItem d this nextItem)
              | BACKSPACE \<Rightarrow> moveKey d this BACKSPACE nextItem
              | DELETE \<Rightarrow> moveKey d this DELETE nextItem
              | RETURN \<Rightarrow> moveKey d this RETURN nextItem
              | Other k \<Rightarrow>
                  (case findItemToFocus d this k of
                     (None, d1) \<Rightarrow> Inr d1
                   | (Some itemToFocus, d1) \<Rightarrow> focusItem d1 this itemToFocus)))"

text \<open>\<^verbatim>\<open>checkClickItem\<close>: the target is an option, or something else (\<open>None\<close>).\<close>

definition checkClickItem :: "document \<Rightarrow> lb \<Rightarrow> node option \<Rightarrow> error + document" where
  "checkClickItem d this target =
     (case target of
        None \<Rightarrow> Inr d
      | Some n \<Rightarrow>
          (case focusItem d this n of
             Inl e \<Rightarrow> Inl e
           | Inr d1 \<Rightarrow> Inr (toggleSelectItem d1 this n)))"

section \<open>Calls on a document\<close>

text \<open>A call of a method of one of the two listboxes, and a sequence of such calls that
  stops at the first one that throws.\<close>

datatype operation =
  FocusItem node
| FocusFirstItem
| FocusLastItem
| ToggleSelectItem node
| AddItems "node list"
| CreateListItems "string list"
| DeleteItems
| MoveUpItems
| MoveDownItems
| MoveItems
| EnableMoveUpDown button button
| SetupMove button lb
| KeyPress event
| ClickItem "node option"
| KeyClear

fun exec :: "document \<Rightarrow> lb \<Rightarrow> operation \<Rightarrow> error + document" where
  "exec d this (FocusItem n) = focusItem d this n"
| "exec d this FocusFirstItem = focusFirstItem d this"
| "exec d this FocusLastItem = focusLastItem d this"
| "exec d this (ToggleSelectItem n) = Inr (toggleSelectItem d this n)"
| "exec d this (AddItems items) = addItems d this items"
| "exec d this (CreateListItems items) = createListItems d this items"
| "exec d this DeleteItems = map_sum id snd (deleteItems d this)"
| "exec d this MoveUpItems = moveUpItems d this"
| "exec d this MoveDownItems = moveDownItems d this"
| "exec d this MoveItems = moveItems d this"
| "exec d this (EnableMoveUpDown up down) = Inr (enableMoveUpDown d this up down)"
| "exec d this (SetupMove btn sibling) = Inr (setupMove d this btn sibling)"
| "exec d this (KeyPress evt) = checkKeyPress d this evt"
| "exec d this (ClickItem target) = checkClickItem d this target"
| "exec d this KeyClear = Inr (keyClear d this)"

fun exec_all :: "document \<Rightarrow> (lb \<times> operation) list \<Rightarrow> error + document" where
  "exec_all d [] = Inr d"
| "exec_all d ((this, c) # cs) =
     (case exec d this c of Inl e \<Rightarrow> Inl e | Inr d1 \<Rightarrow> exec_all d1 cs)"

text \<open>A document whose two listboxes are empty and have no active descendant; the
  arguments say which of them is multiselectable.\<close>

definition empty_document :: "bool \<Rightarrow> bool \<Rightarrow> document" where
  "empty_document multi1 multi2 =
     \<lparr>elems = (\<lambda>n. new_option [] []),
      boxes = (\<lambda>b. Listbox [] None (case b of LB1 \<Rightarrow> multi1 | LB2 \<Rightarrow> multi2)),
      fresh = 0\<rparr>"

text \<open>The controls of the template of \<^verbatim>\<open>RankingListbox\<close>: both start disabled.\<close>

definition ex1_up :: button where
  "ex1_up = \<lparr>aria_disabled = Some ''true'', aria_keyshortcuts = Some ''Control+ArrowUp''\<rparr>"

definition ex1_down :: button where
  "ex1_down = \<lparr>aria_disabled = Some ''true'', aria_keyshortcuts = Some ''Control+ArrowDown''\<rparr>"

section \<open>Well-formed documents\<close>

text \<open>
  The properties below are about well-formed documents. A node has one parent and one
  place among its siblings, so no option occurs twice in the document. The ids of the
  options are pairwise distinct, and none is empty or the string \<^verbatim>\<open>null\<close>, which is
  what \<^verbatim>\<open>getElementById\<close> looks for when the active descendant is null. Every option
  has been allocated. An active descendant that is set names an option of its own
  listbox, and a listbox with \<^verbatim>\<open>moveUpDownEnabled\<close> has both of its buttons, as
  \<^verbatim>\<open>enableMoveUpDown\<close> sets them together.
\<close>

definition focus_ok :: "document \<Rightarrow> lb \<Rightarrow> bool" where
  "focus_ok d b =
     (truthy (activeDescendant (boxes d b)) \<longrightarrow>
      (\<exists>n \<in> set (children (boxes d b)).
         activeDescendant (boxes d b) = Some (eid (elems d n))))"

definition buttons_ok :: "listbox \<Rightarrow> bool" where
  "buttons_ok b = (moveUpDownEnabled b \<longrightarrow> upButton b \<noteq> None \<and> downButton b \<noteq> None)"

definition well_formed :: "document \<Rightarrow> bool" where
  "well_formed d =
     (distinct (all_options d) \<and>
      distinct (map (\<lambda>n. eid (elems d n)) (all_options d)) \<and>
      (\<forall>n \<in> set (all_options d).
         n < fresh d \<and> eid (elems d n) \<noteq> [] \<and> eid (elems d n) \<noteq> ''null'') \<and>
      (\<forall>b. focus_ok d b \<and> buttons_ok (boxes d b)))"

text \<open>What the wiring calls (\<^verbatim>\<open>enableMoveUpDown\<close>, \<^verbatim>\<open>setupMove\<close>) and the constructor fix:
  two listboxes with the same configuration differ at most in their options, their
  focus, their buffer, their handler calls and the \<^verbatim>\<open>aria-disabled\<close> state of their
  controls.\<close>

definition same_config :: "listbox \<Rightarrow> listbox \<Rightarrow> bool" where
  "same_config b b' =
     (multiselectable b' = multiselectable b \<and>
      moveUpDownEnabled b' = moveUpDownEnabled b \<and>
      siblingList b' = siblingList b \<and>
      (upButton b' = None) = (upButton b = None) \<and>
      (downButton b' = None) = (downButton b = None) \<and>
      map_option aria_keyshortcuts (moveButton b') = map_option aria_keyshortcuts (moveButton b))"

text \<open>Two documents that differ at most in the \<^verbatim>\<open>aria-disabled\<close> state of controls.\<close>

definition only_controls :: "document \<Rightarrow> document \<Rightarrow> bool" where
  "only_controls d d' =
     (elems d' = elems d \<and> fresh d' = fresh d \<and>
      (\<forall>b. children (boxes d' b) = children (boxes d b) \<and>
           activeDescendant (boxes d' b) = activeDescendant (boxes d b) \<and>
           aria_activedescendant (boxes d' b) = aria_activedescendant (boxes d b) \<and>
           keysSoFar (boxes d' b) = keysSoFar (boxes d b) \<and>
           calls (boxes d' b) = calls (boxes d b) \<and>
           same_config (boxes d b) (boxes d' b)))"

text \<open>Two documents with the same options in the same places, the same ids and labels,
  and the same configuration; flags, focus, buffer, handler calls and the state of the
  controls may differ.\<close>

definition same_layout :: "document \<Rightarrow> document \<Rightarrow> bool" where
  "same_layout d d' =
     (fresh d' = fresh d \<and>
      (\<forall>n. eid (elems d' n) = eid (elems d n) \<and>
           innerText (elems d' n) = innerText (elems d n)) \<and>
      (\<forall>b. children (boxes d' b) = children (boxes d b) \<and>
           same_config (boxes d b) (boxes d' b)))"

section \<open>The single-select invariant\<close>

text \<open>In a listbox that is not multiselectable, an option with
  \<^verbatim>\<open>aria-selected="true"\<close> is the active descendant.\<close>

definition single_select_ok :: "document \<Rightarrow> bool" where
  "single_select_ok d =
     (\<forall>b. \<not> multiselectable (boxes d b) \<longrightarrow>
        (\<forall>n \<in> set (children (boxes d b)).
           aria_selected (elems d n) = Some ''true'' \<longrightarrow>
           activeDescendant (boxes d b) = Some (eid (elems d n))))"



section \<open>Sample documents\<close>

text \<open>
  A document as a page would declare it: the first listbox has the options 0, 1, 2 and
  names the second, which has the options 3 and 4, as its sibling; the elements 5 and 6
  exist but are in neither list. The arguments give
  the mode of the first and of the second listbox, the options that carry
  \<^verbatim>\<open>aria-selected="true"\<close>, and the \<^verbatim>\<open>aria-activedescendant\<close> attribute of the first
  listbox.
\<close>

definition sample_option :: "node \<Rightarrow> bool \<Rightarrow> element" where
  "sample_option n sel =
     \<lparr>eid = ''opt-'' @ string_of_nat n, innerText = ''Option '' @ string_of_nat n,
      aria_selected = (if sel then Some ''true'' else None),
      aria_checked = (if sel then Some ''true'' else None),
      focused = False\<rparr>"

definition sample_document :: "bool \<Rightarrow> bool \<Rightarrow> node list \<Rightarrow> string option \<Rightarrow> document" where
  "sample_document multi1 multi2 sel attr =
     \<lparr>elems = (\<lambda>n. sample_option n (n \<in> set sel)),
      boxes = (\<lambda>b. case b of
                 LB1 \<Rightarrow> (Listbox [0, 1, 2] attr multi1)\<lparr>siblingList := Some LB2\<rparr>
               | LB2 \<Rightarrow> Listbox [3, 4] None multi2),
      fresh = 7\<rparr>"

section \<open>Properties\<close>

lemma elems_upd_elem [simp]: "elems (upd_elem d n f) = (elems d)(n := f (elems d n))"
  and boxes_upd_elem [simp]: "boxes (upd_elem d n f) = boxes d"
  and fresh_upd_elem [simp]: "fresh (upd_elem d n f) = fresh d"
  by (simp_all add: upd_elem_def)

lemma elems_upd_box [simp]: "elems (upd_box d b f) = elems d"
  and boxes_upd_box [simp]: "boxes (upd_box d b f) = (boxes d)(b := f (boxes d b))"
  and fresh_upd_box [simp]: "fresh (upd_box d b f) = fresh d"
  by (simp_all add: upd_box_def)

lemma elems_remove_node [simp]: "elems (remove_node d n) = elems d"
  and fresh_remove_node [simp]: "fresh (remove_node d n) = fresh d"
  and boxes_remove_node [simp]:
    "boxes (remove_node d n) b = (boxes d b)\<lparr>children := removeAll n (children (boxes d b))\<rparr>"
  by (simp_all add: remove_node_def)

lemma all_options_mem: "n \<in> set (all_options d) \<longleftrightarrow> (\<exists>b. n \<in> set (children (boxes d b)))"
  by (auto simp: all_options_def) (metis lb.exhaust)

lemma find_distinct_ids:
  "distinct (map f xs) \<Longrightarrow> n \<in> set xs \<Longrightarrow> find (\<lambda>x. f x = f n) xs = Some n"
  by (induction xs) auto

lemma getElementById_own:
  "well_formed d \<Longrightarrow> n \<in> set (all_options d) \<Longrightarrow>
   getElementById d (Some (eid (elems d n))) = Some n"
  unfolding well_formed_def getElementById_def js_string_def
  by (simp add: find_distinct_ids[where f="\<lambda>n. eid (elems d n)"])

lemma getElementById_SomeD:
  "getElementById d s = Some n \<Longrightarrow>
   n \<in> set (all_options d) \<and> eid (elems d n) = js_string s"
  by (auto simp: getElementById_def find_Some_iff split: if_splits)

lemma getElementById_falsy:
  "well_formed d \<Longrightarrow> \<not> truthy s \<Longrightarrow> getElementById d s = None"
  by (auto simp: well_formed_def getElementById_def truthy_def js_string_def find_None_iff
      split: option.splits)

lemma getElementById_focus:
  "well_formed d \<Longrightarrow> truthy (activeDescendant (boxes d b)) \<Longrightarrow>
   \<exists>n \<in> set (children (boxes d b)). getElementById d (activeDescendant (boxes d b)) = Some n
      \<and> activeDescendant (boxes d b) = Some (eid (elems d n))"
proof -
  assume w: "well_formed d" and t: "truthy (activeDescendant (boxes d b))"
  then obtain n where n: "n \<in> set (children (boxes d b))"
    "activeDescendant (boxes d b) = Some (eid (elems d n))"
    by (auto simp: well_formed_def focus_ok_def)
  then have "n \<in> set (all_options d)" by (auto simp: all_options_mem)
  with w n show ?thesis by (auto simp: getElementById_own)
qed

lemma takeWhile_pivot: "c \<notin> set xs \<Longrightarrow> takeWhile (\<lambda>x. x \<noteq> c) (xs @ c # ys) = xs"
  by (induction xs) auto

lemma dropWhile_pivot: "c \<notin> set xs \<Longrightarrow> dropWhile (\<lambda>x. x \<noteq> c) (xs @ c # ys) = c # ys"
  by (induction xs) auto

lemma insert_before_pivot:
  "r \<notin> set xs \<Longrightarrow> insert_before n r (xs @ r # ys) = xs @ n # r # ys"
  by (induction xs) auto

lemma parentOf_child:
  "distinct (all_options d) \<Longrightarrow> c \<in> set (children (boxes d this)) \<Longrightarrow>
   parentOf d c = Some this"
  by (cases this) (auto simp: all_options_def parentOf_def)

lemma siblings_of_child:
  assumes "distinct (all_options d)" and "children (boxes d this) = xs @ c # ys"
  shows "preceding d c = rev xs" and "following d c = ys"
proof -
  have d: "distinct (xs @ c # ys)"
    using assms by (cases this) (auto simp: all_options_def)
  then have c: "c \<notin> set xs" by auto
  have p: "parentOf d c = Some this"
    using assms by (simp add: parentOf_child)
  show "preceding d c = rev xs"
    using p c assms(2) by (simp add: preceding_def takeWhile_pivot)
  show "following d c = ys"
    using p c assms(2) by (simp add: following_def dropWhile_pivot)
qed

lemma checkUpDownButtons_result:
  assumes "buttons_ok (boxes d this)"
  shows "\<exists>d'. checkUpDownButtons d this = Inr d' \<and> only_controls d d'"
  using assms
  by (auto simp: checkUpDownButtons_def buttons_ok_def only_controls_def same_config_def
      setDisabled_def Let_def split: option.splits)

lemma checkUpDownButtons_other:
  "checkUpDownButtons d this = Inr d' \<Longrightarrow> b \<noteq> this \<Longrightarrow> boxes d' b = boxes d b"
  by (auto simp: checkUpDownButtons_def Let_def split: option.splits if_splits)

lemma only_controls_refl [simp]: "only_controls d d"
  by (simp add: only_controls_def same_config_def)

lemma same_config_refl [simp]: "same_config b b"
  by (simp add: same_config_def)

lemma same_config_trans: "same_config a b \<Longrightarrow> same_config b c \<Longrightarrow> same_config a c"
  by (simp add: same_config_def)

lemma same_config_buttons_ok: "same_config b b' \<Longrightarrow> buttons_ok b' = buttons_ok b"
  by (simp add: same_config_def buttons_ok_def)

lemma well_formed_buttons_ok:
  "well_formed d \<Longrightarrow> same_config (boxes d b) b' \<Longrightarrow> buttons_ok b'"
  by (simp add: well_formed_def same_config_buttons_ok)

lemma not_in_other_box:
  "distinct (all_options d) \<Longrightarrow> c \<in> set (children (boxes d this)) \<Longrightarrow> b \<noteq> this \<Longrightarrow>
   c \<notin> set (children (boxes d b))"
  by (cases this; cases b) (auto simp: all_options_def)

lemma well_formed_transfer:
  assumes "well_formed d"
    and "set (all_options d') = set (all_options d)"
    and "distinct (all_options d')"
    and "\<And>n. n \<in> set (all_options d) \<Longrightarrow> eid (elems d' n) = eid (elems d n)"
    and "fresh d \<le> fresh d'"
    and "\<And>b. focus_ok d' b"
    and "\<And>b. buttons_ok (boxes d' b)"
  shows "well_formed d'"
proof -
  have inj: "inj_on (\<lambda>n. eid (elems d n)) (set (all_options d))"
    using assms(1) by (simp add: well_formed_def distinct_map)
  have "inj_on (\<lambda>n. eid (elems d' n)) (set (all_options d'))"
    using inj assms(2,4) by (auto simp: inj_on_def)
  moreover have "\<forall>n \<in> set (all_options d').
      n < fresh d' \<and> eid (elems d' n) \<noteq> [] \<and> eid (elems d' n) \<noteq> ''null''"
    using assms(1,2,4,5) by (fastforce simp: well_formed_def)
  ultimately show ?thesis
    using assms(3,6,7) by (simp add: well_formed_def distinct_map)
qed

lemma only_controls_all_options: "only_controls d d' \<Longrightarrow> all_options d' = all_options d"
  by (simp add: only_controls_def all_options_def)

lemma only_controls_focus_ok: "only_controls d d' \<Longrightarrow> focus_ok d' b = focus_ok d b"
  by (simp add: only_controls_def focus_ok_def)

lemma only_controls_well_formed:
  assumes "only_controls d d'" and "well_formed d"
  shows "well_formed d'"
proof (rule well_formed_transfer[OF assms(2)])
  show "set (all_options d') = set (all_options d)"
    using assms(1) by (simp add: only_controls_all_options)
  show "distinct (all_options d')"
    using assms by (simp add: only_controls_all_options well_formed_def)
  show "\<And>n. n \<in> set (all_options d) \<Longrightarrow> eid (elems d' n) = eid (elems d n)"
    using assms(1) by (simp add: only_controls_def)
  show "fresh d \<le> fresh d'"
    using assms(1) by (simp add: only_controls_def)
  show "\<And>b. focus_ok d' b"
    using assms by (simp add: only_controls_focus_ok well_formed_def)
  show "\<And>b. buttons_ok (boxes d' b)"
    using assms well_formed_buttons_ok unfolding only_controls_def by blast
qed

lemma moveUpItems_swap:
  assumes wf: "well_formed d"
    and ch: "children (boxes d this) = xs @ p # c # ys"
    and foc: "activeDescendant (boxes d this) = Some (eid (elems d c))"
  shows "\<exists>d1. moveUpItems d this = Inr d1 \<and> well_formed d1 \<and>
           elems d1 = elems d \<and> fresh d1 = fresh d \<and>
           children (boxes d1 this) = xs @ c # p # ys \<and>
           (\<forall>b. b \<noteq> this \<longrightarrow> children (boxes d1 b) = children (boxes d b)
                \<and> calls (boxes d1 b) = calls (boxes d b)) \<and>
           (\<forall>b. activeDescendant (boxes d1 b) = activeDescendant (boxes d b) \<and>
                same_config (boxes d b) (boxes d1 b)) \<and>
           calls (boxes d1 this) = calls (boxes d this) @ [ItemChange ''moved_up'' [c]]"
proof -
  have dist: "distinct (all_options d)" using wf by (simp add: well_formed_def)
  have cin: "c \<in> set (children (boxes d this))" and pin: "p \<in> set (children (boxes d this))"
    using ch by auto
  have dch: "distinct (xs @ p # c # ys)"
    using dist ch by (cases this) (auto simp: all_options_def)
  have call: "c \<in> set (all_options d)" using cin by (auto simp: all_options_mem)
  have tr: "truthy (activeDescendant (boxes d this))"
    using wf call foc by (auto simp: well_formed_def truthy_def)
  have ge: "getElementById d (activeDescendant (boxes d this)) = Some c"
    using wf call foc by (simp add: getElementById_own)
  have "preceding d c = rev (xs @ [p])"
    using siblings_of_child(1)[OF dist, of this "xs @ [p]" c ys] ch by simp
  then have prev: "previousElementSibling d c = Some p"
    by (simp add: previousElementSibling_def)
  define d0 where "d0 = upd_box (upd_box (remove_node d c) this
       (\<lambda>b. b\<lparr>children := insert_before c p (children b)\<rparr>)) this
       (\<lambda>b. b\<lparr>calls := calls b @ [ItemChange ''moved_up'' [c]]\<rparr>)"
  have ins: "insertBefore d this c p = Inr (upd_box (remove_node d c) this
       (\<lambda>b. b\<lparr>children := insert_before c p (children b)\<rparr>))"
    using pin dch by (auto simp: insertBefore_def)
  have mv: "moveUpItems d this = checkUpDownButtons d0 this"
    using tr ge prev ins by (simp add: moveUpItems_def d0_def)
  have rm: "removeAll c (xs @ p # c # ys) = xs @ p # ys"
    using dch by (simp add: removeAll_id)
  have ch0: "children (boxes d0 this) = xs @ c # p # ys"
    using dch by (simp add: d0_def ch rm insert_before_pivot)
  have oth0: "\<And>b. b \<noteq> this \<Longrightarrow> boxes d0 b = boxes d b"
    using not_in_other_box[OF dist cin] by (simp add: d0_def removeAll_id)
  have cfg0: "\<And>b. same_config (boxes d b) (boxes d0 b)
      \<and> activeDescendant (boxes d0 b) = activeDescendant (boxes d b)"
    by (simp add: d0_def same_config_def)
  have set0: "set (all_options d0) = set (all_options d)"
    using ch ch0 oth0 by (cases this) (auto simp: all_options_def)
  have dist0: "distinct (all_options d0)"
    using dist ch ch0 oth0[of LB1] oth0[of LB2] by (cases this) (auto simp: all_options_def)
  have el0: "elems d0 = elems d" "fresh d0 = fresh d" by (simp_all add: d0_def)
  have fo0: "\<And>b. focus_ok d0 b"
  proof -
    fix b
    have "set (children (boxes d0 b)) = set (children (boxes d b))"
      using ch ch0 oth0[of b] by (cases "b = this") auto
    moreover have "focus_ok d b" using wf by (simp add: well_formed_def)
    ultimately show "focus_ok d0 b" using cfg0[of b] el0 by (simp add: focus_ok_def)
  qed
  have bo0: "\<And>b. buttons_ok (boxes d0 b)"
    using wf cfg0 well_formed_buttons_ok by blast
  have wf0: "well_formed d0"
    by (rule well_formed_transfer[OF wf set0 dist0 _ _ fo0 bo0]) (simp_all add: el0)
  obtain d1 where d1: "checkUpDownButtons d0 this = Inr d1" "only_controls d0 d1"
    using checkUpDownButtons_result[OF bo0[of this]] by blast
  have cl0: "calls (boxes d0 this) = calls (boxes d this) @ [ItemChange ''moved_up'' [c]]"
    by (simp add: d0_def)
  have "well_formed d1" using d1(2) wf0 by (rule only_controls_well_formed)
  moreover have "\<forall>b. b \<noteq> this \<longrightarrow> children (boxes d1 b) = children (boxes d b)
                \<and> calls (boxes d1 b) = calls (boxes d b)"
    using d1(2) oth0 by (simp add: only_controls_def)
  moreover have "\<forall>b. activeDescendant (boxes d1 b) = activeDescendant (boxes d b) \<and>
                same_config (boxes d b) (boxes d1 b)"
    using d1(2) cfg0 by (auto simp: only_controls_def intro: same_config_trans)
  ultimately show ?thesis
    using mv d1 el0 ch0 cl0 by (simp add: only_controls_def)
qed

lemma well_formed_rearranged:
  assumes wf: "well_formed d"
    and el: "elems d0 = elems d" "fresh d0 = fresh d"
    and bx: "\<And>b. set (children (boxes d0 b)) = set (children (boxes d b)) \<and>
                 distinct (children (boxes d0 b)) \<and>
                 activeDescendant (boxes d0 b) = activeDescendant (boxes d b) \<and>
                 same_config (boxes d b) (boxes d0 b)"
  shows "well_formed d0"
proof (rule well_formed_transfer[OF wf])
  show "set (all_options d0) = set (all_options d)"
    using bx by (simp add: all_options_def)
  have "distinct (all_options d)" using wf by (simp add: well_formed_def)
  then show "distinct (all_options d0)"
    using bx[of LB1] bx[of LB2] by (auto simp: all_options_def)
  show "\<And>n. n \<in> set (all_options d) \<Longrightarrow> eid (elems d0 n) = eid (elems d n)"
    by (simp add: el)
  show "fresh d \<le> fresh d0" by (simp add: el)
  show "\<And>b. focus_ok d0 b"
    using wf bx el by (simp add: well_formed_def focus_ok_def)
  show "\<And>b. buttons_ok (boxes d0 b)"
    using wf bx well_formed_buttons_ok by blast
qed

lemma moveDownItems_swap:
  assumes wf: "well_formed d"
    and ch: "children (boxes d this) = xs @ c # nx # ys"
    and foc: "activeDescendant (boxes d this) = Some (eid (elems d c))"
  shows "\<exists>d1. moveDownItems d this = Inr d1 \<and> well_formed d1 \<and>
           elems d1 = elems d \<and> fresh d1 = fresh d \<and>
           children (boxes d1 this) = xs @ nx # c # ys \<and>
           (\<forall>b. b \<noteq> this \<longrightarrow> children (boxes d1 b) = children (boxes d b)
                \<and> calls (boxes d1 b) = calls (boxes d b)) \<and>
           (\<forall>b. activeDescendant (boxes d1 b) = activeDescendant (boxes d b) \<and>
                same_config (boxes d b) (boxes d1 b)) \<and>
           calls (boxes d1 this) = calls (boxes d this) @ [ItemChange ''moved_down'' [c]]"
proof -
  have dist: "distinct (all_options d)" using wf by (simp add: well_formed_def)
  have cin: "c \<in> set (children (boxes d this))" and nin: "nx \<in> set (children (boxes d this))"
    using ch by auto
  have dch: "distinct (xs @ c # nx # ys)"
    using dist ch by (cases this) (auto simp: all_options_def)
  have call: "c \<in> set (all_options d)" using cin by (auto simp: all_options_mem)
  have tr: "truthy (activeDescendant (boxes d this))"
    using wf call foc by (auto simp: well_formed_def truthy_def)
  have ge: "getElementById d (activeDescendant (boxes d this)) = Some c"
    using wf call foc by (simp add: getElementById_own)
  have "following d c = nx # ys"
    using siblings_of_child(2)[OF dist, of this xs c "nx # ys"] ch by simp
  then have nxt: "nextElementSibling d c = Some nx"
    by (simp add: nextElementSibling_def)
  define d0 where "d0 = upd_box (upd_box (remove_node d nx) this
       (\<lambda>b. b\<lparr>children := insert_before nx c (children b)\<rparr>)) this
       (\<lambda>b. b\<lparr>calls := calls b @ [ItemChange ''moved_down'' [c]]\<rparr>)"
  have ins: "insertBefore d this nx c = Inr (upd_box (remove_node d nx) this
       (\<lambda>b. b\<lparr>children := insert_before nx c (children b)\<rparr>))"
    using cin dch by (auto simp: insertBefore_def)
  have mv: "moveDownItems d this = checkUpDownButtons d0 this"
    using tr ge nxt ins by (simp add: moveDownItems_def d0_def)
  have rm: "removeAll nx (xs @ c # nx # ys) = xs @ c # ys"
    using dch by (simp add: removeAll_id)
  have ch0: "children (boxes d0 this) = xs @ nx # c # ys"
    using dch by (simp add: d0_def ch rm insert_before_pivot)
  have oth0: "\<And>b. b \<noteq> this \<Longrightarrow> boxes d0 b = boxes d b"
    using not_in_other_box[OF dist nin] by (simp add: d0_def removeAll_id)
  have cfg0: "\<And>b. same_config (boxes d b) (boxes d0 b)
      \<and> activeDescendant (boxes d0 b) = activeDescendant (boxes d b)"
    by (simp add: d0_def same_config_def)
  have el0: "elems d0 = elems d" "fresh d0 = fresh d" by (simp_all add: d0_def)
  have bx0: "\<And>b. set (children (boxes d0 b)) = set (children (boxes d b)) \<and>
                 distinct (children (boxes d0 b)) \<and>
                 activeDescendant (boxes d0 b) = activeDescendant (boxes d b) \<and>
                 same_config (boxes d b) (boxes d0 b)"
  proof -
    fix b
    have "distinct (children (boxes d b))"
      using dist by (cases b) (auto simp: all_options_def)
    then show "?thesis b"
      using ch ch0 oth0[of b] cfg0[of b] dch by (cases "b = this") auto
  qed
  have wf0: "well_formed d0"
    by (rule well_formed_rearranged[OF wf el0 bx0])
  have "buttons_ok (boxes d0 this)" using wf0 by (simp add: well_formed_def)
  then obtain d1 where d1: "checkUpDownButtons d0 this = Inr d1" "only_controls d0 d1"
    using checkUpDownButtons_result by blast
  have cl0: "calls (boxes d0 this) = calls (boxes d this) @ [ItemChange ''moved_down'' [c]]"
    by (simp add: d0_def)
  have "well_formed d1" using d1(2) wf0 by (rule only_controls_well_formed)
  moreover have "\<forall>b. b \<noteq> this \<longrightarrow> children (boxes d1 b) = children (boxes d b)
                \<and> calls (boxes d1 b) = calls (boxes d b)"
    using d1(2) oth0 by (simp add: only_controls_def)
  moreover have "\<forall>b. activeDescendant (boxes d1 b) = activeDescendant (boxes d b) \<and>
                same_config (boxes d b) (boxes d1 b)"
    using d1(2) cfg0 by (auto simp: only_controls_def intro: same_config_trans)
  ultimately show ?thesis
    using mv d1 el0 ch0 cl0 by (simp add: only_controls_def)
qed

lemma moveUpItems_first:
  assumes wf: "well_formed d"
    and ch: "children (boxes d this) = c # ys"
    and foc: "activeDescendant (boxes d this) = Some (eid (elems d c))"
  shows "\<exists>d1. moveUpItems d this = Inr d1 \<and> only_controls d d1"
proof -
  have dist: "distinct (all_options d)" using wf by (simp add: well_formed_def)
  have "c \<in> set (children (boxes d this))" using ch by simp
  then have call: "c \<in> set (all_options d)" by (auto simp: all_options_mem)
  have tr: "truthy (activeDescendant (boxes d this))"
    using wf call foc by (auto simp: well_formed_def truthy_def)
  have ge: "getElementById d (activeDescendant (boxes d this)) = Some c"
    using wf call foc by (simp add: getElementById_own)
  have "preceding d c = rev []"
    using siblings_of_child(1)[OF dist, of this "[]" c ys] ch by simp
  then have prev: "previousElementSibling d c = None"
    by (simp add: previousElementSibling_def)
  have "moveUpItems d this = checkUpDownButtons d this"
    using tr ge prev by (simp add: moveUpItems_def)
  moreover have "buttons_ok (boxes d this)" using wf by (simp add: well_formed_def)
  ultimately show ?thesis using checkUpDownButtons_result by simp
qed

lemma all_lb: "(\<forall>b. P b) = (P LB1 \<and> P LB2)"
  by (metis lb.exhaust)

lemma ex_lb: "(\<exists>b. P b) = (P LB1 \<or> P LB2)"
  by (metis lb.exhaust)

lemma well_formed_code [code]:
  "well_formed d =
     (distinct (all_options d) \<and>
      distinct (map (\<lambda>n. eid (elems d n)) (all_options d)) \<and>
      (\<forall>n \<in> set (all_options d).
         n < fresh d \<and> eid (elems d n) \<noteq> [] \<and> eid (elems d n) \<noteq> ''null'') \<and>
      (focus_ok d LB1 \<and> buttons_ok (boxes d LB1)) \<and>
      (focus_ok d LB2 \<and> buttons_ok (boxes d LB2)))"
  by (simp add: well_formed_def all_lb)

lemma same_layout_refl [simp]: "same_layout d d"
  by (simp add: same_layout_def)

lemma same_layout_trans: "same_layout a b \<Longrightarrow> same_layout b c \<Longrightarrow> same_layout a c"
  by (auto simp: same_layout_def intro: same_config_trans)

lemma only_controls_same_layout: "only_controls d d' \<Longrightarrow> same_layout d d'"
  by (simp add: only_controls_def same_layout_def)

lemma same_layout_all_options: "same_layout d d' \<Longrightarrow> all_options d' = all_options d"
  by (simp add: same_layout_def all_options_def)

lemma same_layout_getElementById:
  "same_layout d d' \<Longrightarrow> getElementById d' s = getElementById d s"
  by (simp add: getElementById_def same_layout_all_options) (simp add: same_layout_def)

lemma same_layout_well_formed:
  assumes "well_formed d" and "same_layout d d'" and "\<And>b. focus_ok d' b"
  shows "well_formed d'"
proof (rule well_formed_transfer[OF assms(1)])
  show "set (all_options d') = set (all_options d)"
    using assms(2) by (simp add: same_layout_all_options)
  show "distinct (all_options d')"
    using assms(1,2) by (simp add: same_layout_all_options well_formed_def)
  show "\<And>n. n \<in> set (all_options d) \<Longrightarrow> eid (elems d' n) = eid (elems d n)"
    using assms(2) by (simp add: same_layout_def)
  show "fresh d \<le> fresh d'" using assms(2) by (simp add: same_layout_def)
  show "\<And>b. focus_ok d' b" by (rule assms(3))
  show "\<And>b. buttons_ok (boxes d' b)"
    using assms(1,2) well_formed_buttons_ok unfolding same_layout_def by blast
qed

lemma same_layout_focus_ok:
  "same_layout d d' \<Longrightarrow> activeDescendant (boxes d' b) = activeDescendant (boxes d b) \<Longrightarrow>
   focus_ok d' b = focus_ok d b"
  by (simp add: same_layout_def focus_ok_def)

lemma defocusItem_layout:
  "same_layout d (defocusItem d this e) \<and> boxes (defocusItem d this e) = boxes d"
  by (simp add: defocusItem_def same_layout_def Let_def split: option.splits)

lemma toggleSelectItem_layout:
  "same_layout d (toggleSelectItem d this n) \<and>
   (\<forall>b. activeDescendant (boxes (toggleSelectItem d this n) b) = activeDescendant (boxes d b) \<and>
        calls (boxes (toggleSelectItem d this n) b) = calls (boxes d b) \<and>
        keysSoFar (boxes (toggleSelectItem d this n) b) = keysSoFar (boxes d b))"
  by (simp add: toggleSelectItem_def same_layout_def same_config_def Let_def
      split: option.splits)

lemma toggleSelectItem_elems:
  "elems (toggleSelectItem d this n) =
     (if multiselectable (boxes d this)
      then (elems d)(n := (elems d n)\<lparr>
             aria_selected := Some (if aria_selected (elems d n) = Some ''true''
                                    then ''false'' else ''true''),
             aria_checked := Some (if aria_checked (elems d n) = Some ''true''
                                   then ''false'' else ''true'')\<rparr>)
      else elems d)"
  by (auto simp: toggleSelectItem_def Let_def split: option.splits)

lemma defocusItem_elems:
  "elems (defocusItem d this e) =
     (case e of None \<Rightarrow> elems d
      | Some n \<Rightarrow> (elems d)(n := (elems d n)\<lparr>
          aria_selected := (if multiselectable (boxes d this)
                            then aria_selected (elems d n) else None),
          focused := False\<rparr>))"
  by (auto simp: defocusItem_def Let_def split: option.splits)

text \<open>What \<^verbatim>\<open>focusItem\<close> does to the elements: the old active descendant loses the class
  (and, in single-select mode, the selection), then the new one gains both.\<close>

lemma focusItem_summary:
  assumes bo: "buttons_ok (boxes d this)"
  shows "\<exists>d'. focusItem d this n = Inr d' \<and> same_layout d d' \<and>
           activeDescendant (boxes d' this) = Some (eid (elems d n)) \<and>
           calls (boxes d' this) = calls (boxes d this) @ [FocusChange n] \<and>
           keysSoFar (boxes d' this) = keysSoFar (boxes d this) \<and>
           (\<forall>b. b \<noteq> this \<longrightarrow> boxes d' b = boxes d b) \<and>
           elems d' =
             (let e1 = elems (defocusItem d this
                               (getElementById d (activeDescendant (boxes d this))))
              in e1(n := (e1 n)\<lparr>
                   aria_selected := (if multiselectable (boxes d this)
                                     then aria_selected (e1 n) else Some ''true''),
                   focused := True\<rparr>))"
proof -
  define d1 where "d1 = defocusItem d this (getElementById d (activeDescendant (boxes d this)))"
  define d2 where "d2 = (if \<not> multiselectable (boxes d1 this)
                then upd_elem d1 n (\<lambda>e. e\<lparr>aria_selected := Some ''true''\<rparr>) else d1)"
  define d3 where "d3 = upd_elem d2 n (\<lambda>e. e\<lparr>focused := True\<rparr>)"
  define d4 where "d4 = upd_box d3 this
      (\<lambda>b. b\<lparr>aria_activedescendant := Some (eid (elems d3 n)),
              activeDescendant := Some (eid (elems d3 n))\<rparr>)"
  define d5 where "d5 = (if \<not> multiselectable (boxes d4 this) then
                  (case moveButton (boxes d4 this) of None \<Rightarrow> d4
                   | Some m \<Rightarrow> upd_box d4 this
                       (\<lambda>b. b\<lparr>moveButton := Some (m\<lparr>aria_disabled := Some ''false''\<rparr>)\<rparr>))
                else d4)"
  have fi: "focusItem d this n = (case checkUpDownButtons d5 this of Inl e \<Rightarrow> Inl e
         | Inr d6 \<Rightarrow> Inr (upd_box d6 this (\<lambda>b. b\<lparr>calls := calls b @ [FocusChange n]\<rparr>)))"
    unfolding focusItem_def Let_def d1_def d2_def d3_def d4_def d5_def by (rule refl)
  have b1: "boxes d1 = boxes d" "same_layout d d1"
    using defocusItem_layout by (simp_all add: d1_def)
  have b3: "boxes d3 = boxes d" "fresh d3 = fresh d"
    using b1 by (simp_all add: d3_def d2_def same_layout_def)
  have e3: "elems d3 = (elems d1)(n := (elems d1 n)\<lparr>
                   aria_selected := (if multiselectable (boxes d this)
                                     then aria_selected (elems d1 n) else Some ''true''),
                   focused := True\<rparr>)"
    using b1 by (auto simp: d3_def d2_def)
  have id3: "\<And>m. eid (elems d3 m) = eid (elems d m) \<and> innerText (elems d3 m) = innerText (elems d m)"
    using b1(2) by (simp add: e3 same_layout_def)
  have e5: "elems d5 = elems d3" "fresh d5 = fresh d"
    using b3 by (auto simp: d5_def d4_def split: option.splits)
  have o5: "\<And>b. b \<noteq> this \<Longrightarrow> boxes d5 b = boxes d b"
    using b3 by (auto simp: d5_def d4_def split: option.splits)
  have t5: "children (boxes d5 this) = children (boxes d this)"
    "same_config (boxes d this) (boxes d5 this)"
    "activeDescendant (boxes d5 this) = Some (eid (elems d n))"
    "calls (boxes d5 this) = calls (boxes d this)"
    "keysSoFar (boxes d5 this) = keysSoFar (boxes d this)"
    using b3 id3 by (auto simp: d5_def d4_def same_config_def split: option.splits)
  have "buttons_ok (boxes d5 this)"
    using bo t5(2) by (simp add: same_config_buttons_ok)
  then obtain d6 where d6: "checkUpDownButtons d5 this = Inr d6" "only_controls d5 d6"
    using checkUpDownButtons_result by blast
  define d' where "d' = upd_box d6 this (\<lambda>b. b\<lparr>calls := calls b @ [FocusChange n]\<rparr>)"
  have r: "focusItem d this n = Inr d'" by (simp add: fi d6 d'_def)
  have oth: "\<forall>b. b \<noteq> this \<longrightarrow> boxes d' b = boxes d b"
    using checkUpDownButtons_other[OF d6(1)] o5 by (simp add: d'_def)
  have el: "elems d' = elems d3" "fresh d' = fresh d"
    using d6(2) e5 by (simp_all add: d'_def only_controls_def)
  have ch: "\<And>b. children (boxes d' b) = children (boxes d b)"
  proof -
    fix b
    have "children (boxes d' b) = children (boxes d5 b)"
      using d6(2) by (simp add: d'_def only_controls_def)
    then show "children (boxes d' b) = children (boxes d b)"
      using t5(1) o5[of b] by (cases "b = this") simp_all
  qed
  have cf: "\<And>b. same_config (boxes d b) (boxes d' b)"
  proof -
    fix b
    have "same_config (boxes d5 b) (boxes d6 b)"
      using d6(2) by (simp add: only_controls_def)
    moreover have "same_config (boxes d b) (boxes d5 b)"
      using t5(2) o5[of b] by (cases "b = this") simp_all
    moreover have "same_config (boxes d6 b) (boxes d' b)"
      by (simp add: d'_def same_config_def)
    ultimately show "same_config (boxes d b) (boxes d' b)"
      by (blast intro: same_config_trans)
  qed
  have sl: "same_layout d d'"
    using el id3 ch cf by (simp add: same_layout_def)
  have th: "activeDescendant (boxes d' this) = Some (eid (elems d n))"
    "calls (boxes d' this) = calls (boxes d this) @ [FocusChange n]"
    "keysSoFar (boxes d' this) = keysSoFar (boxes d this)"
    using d6(2) t5 by (simp_all add: d'_def only_controls_def)
  show ?thesis
    using r sl th oth el(1) e3 by (simp add: d1_def Let_def)
qed

lemma append_child_boxes:
  "boxes (append_child d this n) b =
     (boxes d b)\<lparr>children := removeAll n (children (boxes d b)) @ (if b = this then [n] else [])\<rparr>"
  by (simp add: append_child_def)

lemma append_child_elems [simp]:
  "elems (append_child d this n) = elems d" "fresh (append_child d this n) = fresh d"
  by (simp_all add: append_child_def)

text \<open>One round of the loop of \<^verbatim>\<open>addItems\<close>.\<close>

lemma addItems_step:
  fixes d this item
  defines "d' \<equiv> append_child (toggleSelectItem (defocusItem d this (Some item)) this item) this item"
  shows "fresh d' = fresh d"
    and "\<And>b. children (boxes d' b) =
           removeAll item (children (boxes d b)) @ (if b = this then [item] else [])"
    and "\<And>b. same_config (boxes d b) (boxes d' b) \<and>
           activeDescendant (boxes d' b) = activeDescendant (boxes d b) \<and>
           calls (boxes d' b) = calls (boxes d b) \<and>
           keysSoFar (boxes d' b) = keysSoFar (boxes d b)"
    and "\<And>m. m \<noteq> item \<Longrightarrow> elems d' m = elems d m"
    and "elems d' item = (elems d item)\<lparr>
           aria_selected := (if multiselectable (boxes d this)
              then Some (if aria_selected (elems d item) = Some ''true'' then ''false'' else ''true'')
              else None),
           aria_checked := (if multiselectable (boxes d this)
              then Some (if aria_checked (elems d item) = Some ''true'' then ''false'' else ''true'')
              else aria_checked (elems d item)),
           focused := False\<rparr>"
proof -
  define d1 where "d1 = defocusItem d this (Some item)"
  define d2 where "d2 = toggleSelectItem d1 this item"
  have d': "d' = append_child d2 this item" by (simp add: d'_def d1_def d2_def)
  have b1: "boxes d1 = boxes d" "fresh d1 = fresh d"
    using defocusItem_layout[of d this "Some item"] by (simp_all add: d1_def same_layout_def)
  have l2: "same_layout d1 d2" 
    "\<And>b. activeDescendant (boxes d2 b) = activeDescendant (boxes d1 b) \<and>
        calls (boxes d2 b) = calls (boxes d1 b) \<and>
        keysSoFar (boxes d2 b) = keysSoFar (boxes d1 b)"
    using toggleSelectItem_layout[of d1 this item] by (simp_all add: d2_def)
  show "fresh d' = fresh d"
    using l2(1) b1 by (simp add: d' same_layout_def)
  show "\<And>b. children (boxes d' b) =
           removeAll item (children (boxes d b)) @ (if b = this then [item] else [])"
    using l2(1) b1 by (simp add: d' append_child_boxes same_layout_def)
  show "\<And>b. same_config (boxes d b) (boxes d' b) \<and>
           activeDescendant (boxes d' b) = activeDescendant (boxes d b) \<and>
           calls (boxes d' b) = calls (boxes d b) \<and>
           keysSoFar (boxes d' b) = keysSoFar (boxes d b)"
    using l2 b1 by (simp add: d' append_child_boxes same_layout_def same_config_def)
  have e2: "elems d2 = (if multiselectable (boxes d this)
      then (elems d1)(item := (elems d1 item)\<lparr>
             aria_selected := Some (if aria_selected (elems d1 item) = Some ''true''
                                    then ''false'' else ''true''),
             aria_checked := Some (if aria_checked (elems d1 item) = Some ''true''
                                   then ''false'' else ''true'')\<rparr>)
      else elems d1)"
    using b1 by (simp add: d2_def toggleSelectItem_elems)
  have e1: "elems d1 = (elems d)(item := (elems d item)\<lparr>
          aria_selected := (if multiselectable (boxes d this)
                            then aria_selected (elems d item) else None),
          focused := False\<rparr>)"
    by (simp add: d1_def defocusItem_elems)
  show "\<And>m. m \<noteq> item \<Longrightarrow> elems d' m = elems d m"
    by (simp add: d' e2 e1)
  show "elems d' item = (elems d item)\<lparr>
           aria_selected := (if multiselectable (boxes d this)
              then Some (if aria_selected (elems d item) = Some ''true'' then ''false'' else ''true'')
              else None),
           aria_checked := (if multiselectable (boxes d this)
              then Some (if aria_checked (elems d item) = Some ''true'' then ''false'' else ''true'')
              else aria_checked (elems d item)),
           focused := False\<rparr>"
    by (simp add: d' e2 e1)
qed

lemma filter_after_append:
  "a \<notin> set items \<Longrightarrow>
   filter (\<lambda>n. n \<notin> set items) (removeAll a xs @ (if t then [a] else [])) @
     (if t then items else []) =
   filter (\<lambda>n. n \<notin> set (a # items)) xs @ (if t then a # items else [])"
  by (induction xs) auto

lemma addItems_each_summary:
  assumes "distinct items"
  shows "fresh (addItems_each d this items) = fresh d \<and>
    (\<forall>b. children (boxes (addItems_each d this items) b) =
           filter (\<lambda>n. n \<notin> set items) (children (boxes d b)) @ (if b = this then items else []) \<and>
         same_config (boxes d b) (boxes (addItems_each d this items) b) \<and>
         activeDescendant (boxes (addItems_each d this items) b) = activeDescendant (boxes d b) \<and>
         calls (boxes (addItems_each d this items) b) = calls (boxes d b) \<and>
         keysSoFar (boxes (addItems_each d this items) b) = keysSoFar (boxes d b)) \<and>
    (\<forall>m. elems (addItems_each d this items) m =
         (if m \<in> set items then (elems d m)\<lparr>
           aria_selected := (if multiselectable (boxes d this)
              then Some (if aria_selected (elems d m) = Some ''true'' then ''false'' else ''true'')
              else None),
           aria_checked := (if multiselectable (boxes d this)
              then Some (if aria_checked (elems d m) = Some ''true'' then ''false'' else ''true'')
              else aria_checked (elems d m)),
           focused := False\<rparr>
          else elems d m))"
  using assms
proof (induction items arbitrary: d)
  case Nil
  then show ?case by simp
next
  case (Cons a items)
  define d1 where "d1 = append_child (toggleSelectItem (defocusItem d this (Some a)) this a) this a"
  note st = addItems_step[where d=d and this=this and item=a, folded d1_def]
  have ms: "multiselectable (boxes d1 this) = multiselectable (boxes d this)"
    using st(3)[of this] by (simp add: same_config_def)
  have dr: "distinct items" and an: "a \<notin> set items" using Cons.prems by auto
  note ih = Cons.IH[OF dr, of d1]
  have ae: "addItems_each d this (a # items) = addItems_each d1 this items"
    by (simp add: d1_def)
  have c1: "fresh (addItems_each d this (a # items)) = fresh d"
    unfolding ae using ih st(1) by simp
  have c2: "children (boxes (addItems_each d this (a # items)) b) =
           filter (\<lambda>n. n \<notin> set (a # items)) (children (boxes d b)) @
             (if b = this then a # items else [])" for b
  proof -
    have "children (boxes (addItems_each d1 this items) b) =
        filter (\<lambda>n. n \<notin> set items) (children (boxes d1 b)) @ (if b = this then items else [])"
      using ih by blast
    then show ?thesis
      unfolding ae st(2)[of b] using filter_after_append[OF an] by simp
  qed
  have c3: "same_config (boxes d b) (boxes (addItems_each d this (a # items)) b) \<and>
         activeDescendant (boxes (addItems_each d this (a # items)) b) = activeDescendant (boxes d b) \<and>
         calls (boxes (addItems_each d this (a # items)) b) = calls (boxes d b) \<and>
         keysSoFar (boxes (addItems_each d this (a # items)) b) = keysSoFar (boxes d b)" for b
  proof -
    have "same_config (boxes d1 b) (boxes (addItems_each d1 this items) b)"
      using ih by blast
    then have "same_config (boxes d b) (boxes (addItems_each d1 this items) b)"
      using st(3)[of b] same_config_trans by blast
    then show ?thesis unfolding ae using ih st(3)[of b] by simp
  qed
  have c4: "elems (addItems_each d this (a # items)) m =
         (if m \<in> set (a # items) then (elems d m)\<lparr>
           aria_selected := (if multiselectable (boxes d this)
              then Some (if aria_selected (elems d m) = Some ''true'' then ''false'' else ''true'')
              else None),
           aria_checked := (if multiselectable (boxes d this)
              then Some (if aria_checked (elems d m) = Some ''true'' then ''false'' else ''true'')
              else aria_checked (elems d m)),
           focused := False\<rparr>
          else elems d m)" for m
  proof -
    have e: "elems (addItems_each d1 this items) m =
         (if m \<in> set items then (elems d1 m)\<lparr>
           aria_selected := (if multiselectable (boxes d1 this)
              then Some (if aria_selected (elems d1 m) = Some ''true'' then ''false'' else ''true'')
              else None),
           aria_checked := (if multiselectable (boxes d1 this)
              then Some (if aria_checked (elems d1 m) = Some ''true'' then ''false'' else ''true'')
              else aria_checked (elems d1 m)),
           focused := False\<rparr>
          else elems d1 m)"
      using ih by blast
    show ?thesis
    proof (cases "m = a")
      case True
      then show ?thesis unfolding ae using an e st(5) by simp
    next
      case False
      then show ?thesis unfolding ae using e st(4)[of m] ms by simp
    qed
  qed
  show ?case using c1 c2 c3 c4 by blast
qed

lemma addItems_cases:
  assumes "items \<noteq> []" and "buttons_ok (boxes d this)" and "distinct items"
  shows "\<exists>d2. addItems d this items =
            Inr (upd_box d2 this (\<lambda>b. b\<lparr>calls := calls b @ [ItemChange ''added'' items]\<rparr>)) \<and>
          (if truthy (activeDescendant (boxes d this))
           then d2 = addItems_each d this items
           else focusItem (addItems_each d this items) this (hd items) = Inr d2)"
proof -
  define d1 where "d1 = addItems_each d this items"
  have s1: "same_config (boxes d this) (boxes d1 this)"
    "activeDescendant (boxes d1 this) = activeDescendant (boxes d this)"
    using addItems_each_summary[OF assms(3), of d this] by (simp_all add: d1_def)
  have "buttons_ok (boxes d1 this)"
    using assms(2) s1(1) by (simp add: same_config_buttons_ok)
  then obtain d2 where "focusItem d1 this (hd items) = Inr d2"
    using focusItem_summary by blast
  then show ?thesis
    using assms(1) s1(2) by (auto simp: addItems_def Let_def d1_def)
qed

text \<open>The observable result of \<^verbatim>\<open>addItems\<close> on the listboxes.\<close>

lemma addItems_summary:
  assumes "items \<noteq> []" and "buttons_ok (boxes d this)" and "distinct items"
  shows "\<exists>d'. addItems d this items = Inr d' \<and> fresh d' = fresh d \<and>
    (\<forall>n. eid (elems d' n) = eid (elems d n) \<and> innerText (elems d' n) = innerText (elems d n)) \<and>
    (\<forall>b. children (boxes d' b) =
           filter (\<lambda>n. n \<notin> set items) (children (boxes d b)) @ (if b = this then items else []) \<and>
         same_config (boxes d b) (boxes d' b) \<and>
         keysSoFar (boxes d' b) = keysSoFar (boxes d b)) \<and>
    (\<forall>b. b \<noteq> this \<longrightarrow> activeDescendant (boxes d' b) = activeDescendant (boxes d b) \<and>
         calls (boxes d' b) = calls (boxes d b)) \<and>
    activeDescendant (boxes d' this) =
      (if truthy (activeDescendant (boxes d this)) then activeDescendant (boxes d this)
       else Some (eid (elems d (hd items)))) \<and>
    calls (boxes d' this) =
      calls (boxes d this) @
      (if truthy (activeDescendant (boxes d this)) then [] else [FocusChange (hd items)]) @
      [ItemChange ''added'' items] \<and>
    (if truthy (activeDescendant (boxes d this))
     then elems d' = elems (addItems_each d this items)
     else elems d' =
       (let e1 = elems (defocusItem (addItems_each d this items) this
                   (getElementById (addItems_each d this items) (activeDescendant (boxes d this))))
        in e1(hd items := (e1 (hd items))\<lparr>
             aria_selected := (if multiselectable (boxes d this)
                               then aria_selected (e1 (hd items)) else Some ''true''),
             focused := True\<rparr>)))"
proof -
  define d1 where "d1 = addItems_each d this items"
  note s1 = addItems_each_summary[OF assms(3), of d this, folded d1_def]
  have f1: "fresh d1 = fresh d" using s1 by blast
  have b1: "children (boxes d1 b) =
           filter (\<lambda>n. n \<notin> set items) (children (boxes d b)) @ (if b = this then items else [])"
     "same_config (boxes d b) (boxes d1 b)"
     "activeDescendant (boxes d1 b) = activeDescendant (boxes d b)"
     "calls (boxes d1 b) = calls (boxes d b)"
     "keysSoFar (boxes d1 b) = keysSoFar (boxes d b)" for b
    using s1 by blast+
  have e1: "eid (elems d1 n) = eid (elems d n) \<and> innerText (elems d1 n) = innerText (elems d n)" for n
  proof -
    have "elems d1 n =
         (if n \<in> set items then (elems d n)\<lparr>
           aria_selected := (if multiselectable (boxes d this)
              then Some (if aria_selected (elems d n) = Some ''true'' then ''false'' else ''true'')
              else None),
           aria_checked := (if multiselectable (boxes d this)
              then Some (if aria_checked (elems d n) = Some ''true'' then ''false'' else ''true'')
              else aria_checked (elems d n)),
           focused := False\<rparr>
          else elems d n)"
      using s1 by blast
    then show ?thesis by simp
  qed
  have ms: "multiselectable (boxes d1 this) = multiselectable (boxes d this)"
    using b1(2)[of this] by (simp add: same_config_def)
  obtain d2 where d2: "addItems d this items =
            Inr (upd_box d2 this (\<lambda>b. b\<lparr>calls := calls b @ [ItemChange ''added'' items]\<rparr>))"
     "if truthy (activeDescendant (boxes d this))
           then d2 = d1 else focusItem d1 this (hd items) = Inr d2"
    using addItems_cases[OF assms] unfolding d1_def by blast
  show ?thesis
  proof (cases "truthy (activeDescendant (boxes d this))")
    case True
    then have "d2 = d1" using d2(2) by simp
    then show ?thesis
      using True d2(1) f1 b1 e1 by (simp add: d1_def same_config_def)
  next
    case False
    then have fi: "focusItem d1 this (hd items) = Inr d2" using d2(2) by simp
    have "buttons_ok (boxes d1 this)"
      using assms(2) b1(2)[of this] by (simp add: same_config_buttons_ok)
    from focusItem_summary[OF this, of "hd items"] fi
    have s2: "same_layout d1 d2"
      "activeDescendant (boxes d2 this) = Some (eid (elems d1 (hd items)))"
      "calls (boxes d2 this) = calls (boxes d1 this) @ [FocusChange (hd items)]"
      "keysSoFar (boxes d2 this) = keysSoFar (boxes d1 this)"
      "\<forall>b. b \<noteq> this \<longrightarrow> boxes d2 b = boxes d1 b"
      "elems d2 =
             (let e1 = elems (defocusItem d1 this
                               (getElementById d1 (activeDescendant (boxes d1 this))))
              in e1(hd items := (e1 (hd items))\<lparr>
                   aria_selected := (if multiselectable (boxes d1 this)
                                     then aria_selected (e1 (hd items)) else Some ''true''),
                   focused := True\<rparr>))"
      by auto
    have cf: "same_config (boxes d b) (boxes d2 b)" for b
      using s2(1) b1(2)[of b] same_config_trans unfolding same_layout_def by blast
    have ks: "keysSoFar (boxes d2 b) = keysSoFar (boxes d b)" for b
      using s2(4,5) b1(5)[of b] by (cases "b = this") auto
    have ch: "children (boxes d2 b) =
           filter (\<lambda>n. n \<notin> set items) (children (boxes d b)) @ (if b = this then items else [])" for b
      using s2(1) b1(1)[of b] by (simp add: same_layout_def)
    have ids: "eid (elems d2 n) = eid (elems d n) \<and> innerText (elems d2 n) = innerText (elems d n)" for n
      using s2(1) e1[of n] by (simp add: same_layout_def)
    have fr: "fresh d2 = fresh d" using s2(1) f1 by (simp add: same_layout_def)
    have oth: "b \<noteq> this \<Longrightarrow> activeDescendant (boxes d2 b) = activeDescendant (boxes d b) \<and>
         calls (boxes d2 b) = calls (boxes d b)" for b
      using s2(5) b1(3,4)[of b] by simp
    define d' where "d' = upd_box d2 this (\<lambda>b. b\<lparr>calls := calls b @ [ItemChange ''added'' items]\<rparr>)"
    have r: "addItems d this items = Inr d'" by (simp add: d2(1) d'_def)
    have A: "fresh d' = fresh d" by (simp add: d'_def fr)
    have B: "\<forall>n. eid (elems d' n) = eid (elems d n) \<and> innerText (elems d' n) = innerText (elems d n)"
      using ids by (simp add: d'_def)
    have C: "\<forall>b. children (boxes d' b) =
           filter (\<lambda>n. n \<notin> set items) (children (boxes d b)) @ (if b = this then items else []) \<and>
         same_config (boxes d b) (boxes d' b) \<and>
         keysSoFar (boxes d' b) = keysSoFar (boxes d b)"
      using ch ks cf by (simp add: d'_def same_config_def)
    have D: "\<forall>b. b \<noteq> this \<longrightarrow> activeDescendant (boxes d' b) = activeDescendant (boxes d b) \<and>
         calls (boxes d' b) = calls (boxes d b)"
      using oth by (simp add: d'_def)
    have E: "activeDescendant (boxes d' this) = Some (eid (elems d (hd items)))"
      using s2(2) e1[of "hd items"] by (simp add: d'_def)
    have F: "calls (boxes d' this) =
      calls (boxes d this) @ [FocusChange (hd items)] @ [ItemChange ''added'' items]"
      using s2(3) b1(4)[of this] by (simp add: d'_def)
    have G: "elems d' =
       (let e1 = elems (defocusItem (addItems_each d this items) this
                   (getElementById (addItems_each d this items) (activeDescendant (boxes d this))))
        in e1(hd items := (e1 (hd items))\<lparr>
             aria_selected := (if multiselectable (boxes d this)
                               then aria_selected (e1 (hd items)) else Some ''true''),
             focused := True\<rparr>))"
      using s2(6) b1(3)[of this] ms by (simp add: d'_def d1_def)
    show ?thesis
      using False r A B C D E F G by simp
  qed
qed

lemma clearActiveDescendant_result:
  assumes "buttons_ok (boxes d this)"
  shows "\<exists>d'. clearActiveDescendant d this = Inr d' \<and> elems d' = elems d \<and>
           fresh d' = fresh d \<and>
           (\<forall>b. children (boxes d' b) = children (boxes d b) \<and>
                same_config (boxes d b) (boxes d' b) \<and>
                calls (boxes d' b) = calls (boxes d b) \<and>
                keysSoFar (boxes d' b) = keysSoFar (boxes d b)) \<and>
           activeDescendant (boxes d' this) = None \<and>
           (\<forall>b. b \<noteq> this \<longrightarrow> boxes d' b = boxes d b)"
proof -
  define d0 where "d0 = upd_box d this (\<lambda>b. b\<lparr>activeDescendant := None,
                               aria_activedescendant := Some ''null'',
                               moveButton := setDisabled ''true'' (moveButton b)\<rparr>)"
  have c0: "same_config (boxes d b) (boxes d0 b)" for b
    by (cases "moveButton (boxes d this)")
       (auto simp: d0_def same_config_def setDisabled_def)
  have "buttons_ok (boxes d0 this)"
    using assms c0[of this] by (simp add: same_config_buttons_ok)
  then obtain d' where d': "checkUpDownButtons d0 this = Inr d'" "only_controls d0 d'"
    using checkUpDownButtons_result by blast
  have r: "clearActiveDescendant d this = Inr d'"
    using d'(1) by (simp add: clearActiveDescendant_def d0_def)
  have cf: "same_config (boxes d b) (boxes d' b)" for b
    using c0[of b] d'(2) same_config_trans unfolding only_controls_def by blast
  have oth: "\<forall>b. b \<noteq> this \<longrightarrow> boxes d' b = boxes d b"
    using checkUpDownButtons_other[OF d'(1)] by (simp add: d0_def)
  have rest: "elems d' = elems d" "fresh d' = fresh d"
    "\<And>b. children (boxes d' b) = children (boxes d b)"
    "\<And>b. calls (boxes d' b) = calls (boxes d b)"
    "\<And>b. keysSoFar (boxes d' b) = keysSoFar (boxes d b)"
    "activeDescendant (boxes d' this) = None"
    using d'(2) by (simp_all add: only_controls_def d0_def)
  show ?thesis using r cf oth rest by blast
qed

lemma deleteItems_each_summary:
  assumes "buttons_ok (boxes d this)"
  shows "\<exists>d'. deleteItems_each d this items = Inr d' \<and> elems d' = elems d \<and>
           fresh d' = fresh d \<and>
           (\<forall>b. children (boxes d' b) = filter (\<lambda>n. n \<notin> set items) (children (boxes d b)) \<and>
                same_config (boxes d b) (boxes d' b) \<and>
                calls (boxes d' b) = calls (boxes d b) \<and>
                keysSoFar (boxes d' b) = keysSoFar (boxes d b)) \<and>
           (\<forall>b. b \<noteq> this \<longrightarrow> activeDescendant (boxes d' b) = activeDescendant (boxes d b)) \<and>
           activeDescendant (boxes d' this) =
             (if \<exists>i \<in> set items. Some (eid (elems d i)) = activeDescendant (boxes d this)
              then None else activeDescendant (boxes d this))"
  using assms
proof (induction items arbitrary: d)
  case Nil
  then show ?case by simp
next
  case (Cons a items)
  define d1 where "d1 = remove_node d a"
  have b1: "buttons_ok (boxes d1 this)"
    using Cons.prems by (simp add: d1_def buttons_ok_def)
  obtain d2 where d2:
    "(if Some (eid (elems d1 a)) = activeDescendant (boxes d1 this)
      then clearActiveDescendant d1 this else Inr d1) = Inr d2"
    "elems d2 = elems d1" "fresh d2 = fresh d1"
    "\<And>b. children (boxes d2 b) = children (boxes d1 b)"
    "\<And>b. same_config (boxes d1 b) (boxes d2 b)"
    "\<And>b. calls (boxes d2 b) = calls (boxes d1 b)"
    "\<And>b. keysSoFar (boxes d2 b) = keysSoFar (boxes d1 b)"
    "\<And>b. b \<noteq> this \<Longrightarrow> activeDescendant (boxes d2 b) = activeDescendant (boxes d1 b)"
    "activeDescendant (boxes d2 this) =
       (if Some (eid (elems d1 a)) = activeDescendant (boxes d1 this) then None
        else activeDescendant (boxes d1 this))"
  proof (cases "Some (eid (elems d1 a)) = activeDescendant (boxes d1 this)")
    case True
    obtain d2 where "clearActiveDescendant d1 this = Inr d2 \<and> elems d2 = elems d1 \<and>
           fresh d2 = fresh d1 \<and>
           (\<forall>b. children (boxes d2 b) = children (boxes d1 b) \<and>
                same_config (boxes d1 b) (boxes d2 b) \<and>
                calls (boxes d2 b) = calls (boxes d1 b) \<and>
                keysSoFar (boxes d2 b) = keysSoFar (boxes d1 b)) \<and>
           activeDescendant (boxes d2 this) = None \<and>
           (\<forall>b. b \<noteq> this \<longrightarrow> boxes d2 b = boxes d1 b)"
      using clearActiveDescendant_result[OF b1] by blast
    then show ?thesis using True that[of d2] by simp
  next
    case False
    then show ?thesis using that[of d1] by simp
  qed
  have b2: "buttons_ok (boxes d2 this)"
    using b1 d2(5)[of this] by (simp add: same_config_buttons_ok)
  obtain d' where d': "deleteItems_each d2 this items = Inr d'" "elems d' = elems d2"
     "fresh d' = fresh d2"
     "\<And>b. children (boxes d' b) = filter (\<lambda>n. n \<notin> set items) (children (boxes d2 b))"
     "\<And>b. same_config (boxes d2 b) (boxes d' b)"
     "\<And>b. calls (boxes d' b) = calls (boxes d2 b)"
     "\<And>b. keysSoFar (boxes d' b) = keysSoFar (boxes d2 b)"
     "\<And>b. b \<noteq> this \<Longrightarrow> activeDescendant (boxes d' b) = activeDescendant (boxes d2 b)"
     "activeDescendant (boxes d' this) =
             (if \<exists>i \<in> set items. Some (eid (elems d2 i)) = activeDescendant (boxes d2 this)
              then None else activeDescendant (boxes d2 this))"
    using Cons.IH[OF b2] by blast
  have r: "deleteItems_each d this (a # items) = Inr d'"
    using d2(1) d'(1) unfolding d1_def by (auto simp: Let_def split: if_splits)
  have f: "removeAll a xs = filter (\<lambda>n. n \<noteq> a) xs" for xs :: "node list"
    by (induction xs) auto
  have A: "elems d' = elems d" "fresh d' = fresh d"
    using d'(2,3) d2(2,3) by (simp_all add: d1_def)
  have B: "children (boxes d' b) = filter (\<lambda>n. n \<notin> set (a # items)) (children (boxes d b))" for b
    using d'(4)[of b] d2(4)[of b] by (simp add: d1_def f conj_commute)
  have C: "same_config (boxes d b) (boxes d' b)" for b
  proof -
    have "same_config (boxes d b) (boxes d1 b)" by (simp add: d1_def same_config_def)
    then show ?thesis using d2(5)[of b] d'(5)[of b] same_config_trans by blast
  qed
  have D: "calls (boxes d' b) = calls (boxes d b)" "keysSoFar (boxes d' b) = keysSoFar (boxes d b)" for b
    using d'(6,7)[of b] d2(6,7)[of b] by (simp_all add: d1_def)
  have E: "b \<noteq> this \<Longrightarrow> activeDescendant (boxes d' b) = activeDescendant (boxes d b)" for b
    using d'(8)[of b] d2(8)[of b] by (simp add: d1_def)
  have F: "activeDescendant (boxes d' this) =
             (if \<exists>i \<in> set (a # items). Some (eid (elems d i)) = activeDescendant (boxes d this)
              then None else activeDescendant (boxes d this))"
    using d'(9) d2(2,9) by (auto simp: d1_def)
  show ?case using r A B C D E F by blast
qed

lemma well_formed_shrink:
  assumes "well_formed d"
    and "set (all_options d') \<subseteq> set (all_options d)"
    and "distinct (all_options d')"
    and "\<And>n. n \<in> set (all_options d) \<Longrightarrow> eid (elems d' n) = eid (elems d n)"
    and "fresh d \<le> fresh d'"
    and "\<And>b. focus_ok d' b"
    and "\<And>b. buttons_ok (boxes d' b)"
  shows "well_formed d'"
proof -
  have inj: "inj_on (\<lambda>n. eid (elems d n)) (set (all_options d))"
    using assms(1) by (simp add: well_formed_def distinct_map)
  have "inj_on (\<lambda>n. eid (elems d' n)) (set (all_options d'))"
  proof (rule inj_onI)
    fix x y
    assume "x \<in> set (all_options d')" "y \<in> set (all_options d')"
      "eid (elems d' x) = eid (elems d' y)"
    then show "x = y" using inj assms(2,4) by (metis inj_onD subsetD)
  qed
  moreover have "\<forall>n \<in> set (all_options d').
      n < fresh d' \<and> eid (elems d' n) \<noteq> [] \<and> eid (elems d' n) \<noteq> ''null''"
    using assms(1,2,4,5) by (fastforce simp: well_formed_def)
  ultimately show ?thesis
    using assms(3,6,7) by (simp add: well_formed_def distinct_map)
qed

text \<open>The items \<^verbatim>\<open>deleteItems\<close> removes: the selected options of a multi-select listbox,
  the active descendant of a single-select one.\<close>

lemma deleteItems_Some:
  "itemsToDelete d this = Some (map Some rs) \<Longrightarrow> rs \<noteq> [] \<Longrightarrow>
   deleteItems d this =
     (case deleteItems_each d this rs of
        Inl e \<Rightarrow> Inl e
      | Inr d1 \<Rightarrow> Inr (rs, upd_box d1 this
              (\<lambda>b. b\<lparr>calls := calls b @ [ItemChange ''removed'' rs]\<rparr>)))"
  by (cases rs)
     (auto simp add: deleteItems_def comp_def cong: sum.case_cong
        simp del: deleteItems_each.simps)

lemma deleteItems_unfold:
  assumes wf: "well_formed d"
    and rm: "removed = (if multiselectable (boxes d this)
        then filter (\<lambda>n. aria_selected (elems d n) = Some ''true'') (children (boxes d this))
        else (case getElementById d (activeDescendant (boxes d this)) of
                None \<Rightarrow> [] | Some c \<Rightarrow> [c]))"
  shows "deleteItems d this =
     (if removed = [] then Inr ([], d)
      else case deleteItems_each d this removed of
             Inl e \<Rightarrow> Inl e
           | Inr d1 \<Rightarrow> Inr (removed, upd_box d1 this
                   (\<lambda>b. b\<lparr>calls := calls b @ [ItemChange ''removed'' removed]\<rparr>)))"
proof (cases "multiselectable (boxes d this)")
  case True
  then have r: "removed = filter (\<lambda>n. aria_selected (elems d n) = Some ''true'')
      (children (boxes d this))"
    using rm by simp
  have it: "itemsToDelete d this = Some (map Some removed)"
    using True r by (simp add: itemsToDelete_def)
  show ?thesis
  proof (cases "removed = []")
    case True
    then show ?thesis using it by (simp add: deleteItems_def)
  next
    case False
    then show ?thesis using deleteItems_Some[OF it False] by simp
  qed
next
  case False
  show ?thesis
  proof (cases "truthy (activeDescendant (boxes d this))")
    case True
    then obtain c where c: "getElementById d (activeDescendant (boxes d this)) = Some c"
      using getElementById_focus[OF wf True] by blast
    then have r: "removed = [c]" using rm False by simp
    have "itemsToDelete d this = Some (map Some [c])"
      using False True c by (simp add: itemsToDelete_def)
    from deleteItems_Some[OF this] show ?thesis unfolding r by simp
  next
    case nt: False
    then have "getElementById d (activeDescendant (boxes d this)) = None"
      using wf by (simp add: getElementById_falsy)
    then have "removed = []" using rm False by simp
    moreover have "itemsToDelete d this = None"
      using False nt by (simp add: itemsToDelete_def)
    ultimately show ?thesis by (simp add: deleteItems_def)
  qed
qed

lemma removed_in_list:
  assumes wf: "well_formed d"
    and rm: "removed = (if multiselectable (boxes d this)
        then filter (\<lambda>n. aria_selected (elems d n) = Some ''true'') (children (boxes d this))
        else (case getElementById d (activeDescendant (boxes d this)) of
                None \<Rightarrow> [] | Some c \<Rightarrow> [c]))"
  shows "set removed \<subseteq> set (children (boxes d this))" and "distinct removed"
proof -
  have dc: "distinct (children (boxes d this))"
    using wf by (cases this) (auto simp: well_formed_def all_options_def)
  have g: "getElementById d (activeDescendant (boxes d this)) = Some c \<Longrightarrow>
      c \<in> set (children (boxes d this))" for c
  proof -
    assume a: "getElementById d (activeDescendant (boxes d this)) = Some c"
    then have "truthy (activeDescendant (boxes d this))"
      using getElementById_falsy[OF wf] by fastforce
    then show ?thesis using getElementById_focus[OF wf] a by fastforce
  qed
  show "set removed \<subseteq> set (children (boxes d this))"
    using rm g by (auto split: if_splits option.splits)
  show "distinct removed"
    using rm dc by (auto split: if_splits option.splits)
qed

lemma deleteItems_summary:
  assumes wf: "well_formed d"
    and rm: "removed = (if multiselectable (boxes d this)
        then filter (\<lambda>n. aria_selected (elems d n) = Some ''true'') (children (boxes d this))
        else (case getElementById d (activeDescendant (boxes d this)) of
                None \<Rightarrow> [] | Some c \<Rightarrow> [c]))"
  shows "\<exists>d'. deleteItems d this = Inr (removed, d') \<and> well_formed d' \<and>
           elems d' = elems d \<and> fresh d' = fresh d \<and>
           children (boxes d' this) =
              filter (\<lambda>n. n \<notin> set removed) (children (boxes d this)) \<and>
           (\<forall>b. same_config (boxes d b) (boxes d' b) \<and>
                keysSoFar (boxes d' b) = keysSoFar (boxes d b)) \<and>
           (\<forall>b. b \<noteq> this \<longrightarrow> children (boxes d' b) = children (boxes d b) \<and>
                activeDescendant (boxes d' b) = activeDescendant (boxes d b) \<and>
                calls (boxes d' b) = calls (boxes d b)) \<and>
           activeDescendant (boxes d' this) =
             (if \<exists>i \<in> set removed. Some (eid (elems d i)) = activeDescendant (boxes d this)
              then None else activeDescendant (boxes d this)) \<and>
           calls (boxes d' this) = calls (boxes d this) @
             (if removed = [] then [] else [ItemChange ''removed'' removed]) \<and>
           (removed = [] \<longrightarrow> d' = d)"
proof (cases "removed = []")
  case True
  then have "deleteItems d this = Inr (removed, d)"
    using deleteItems_unfold[OF wf rm] by simp
  then show ?thesis using True wf by simp
next
  case False
  have bo: "buttons_ok (boxes d this)" using wf by (simp add: well_formed_def)
  obtain d1 where d1: "deleteItems_each d this removed = Inr d1" "elems d1 = elems d"
     "fresh d1 = fresh d"
     "\<And>b. children (boxes d1 b) = filter (\<lambda>n. n \<notin> set removed) (children (boxes d b))"
     "\<And>b. same_config (boxes d b) (boxes d1 b)"
     "\<And>b. calls (boxes d1 b) = calls (boxes d b)"
     "\<And>b. keysSoFar (boxes d1 b) = keysSoFar (boxes d b)"
     "\<And>b. b \<noteq> this \<Longrightarrow> activeDescendant (boxes d1 b) = activeDescendant (boxes d b)"
     "activeDescendant (boxes d1 this) =
             (if \<exists>i \<in> set removed. Some (eid (elems d i)) = activeDescendant (boxes d this)
              then None else activeDescendant (boxes d this))"
    using deleteItems_each_summary[OF bo, of removed] by blast
  define d' where "d' = upd_box d1 this
       (\<lambda>b. b\<lparr>calls := calls b @ [ItemChange ''removed'' removed]\<rparr>)"
  have r: "deleteItems d this = Inr (removed, d')"
    using deleteItems_unfold[OF wf rm] False d1(1) by (simp add: d'_def)
  note sub = removed_in_list[OF wf rm]
  have dist: "distinct (all_options d)" using wf by (simp add: well_formed_def)
  have other: "b \<noteq> this \<Longrightarrow>
      filter (\<lambda>n. n \<notin> set removed) (children (boxes d b)) = children (boxes d b)" for b
  proof (rule filter_True, intro ballI notI)
    fix x assume "b \<noteq> this" "x \<in> set (children (boxes d b))" "x \<in> set removed"
    then show False using not_in_other_box[OF dist, of x this b] sub(1) by auto
  qed
  have ch: "children (boxes d' b) = filter (\<lambda>n. n \<notin> set removed) (children (boxes d b))" for b
    using d1(4)[of b] by (cases "b = this") (simp_all add: d'_def)
  have cf: "same_config (boxes d b) (boxes d' b)" for b
    using d1(5)[of b] by (cases "b = this") (simp_all add: d'_def same_config_def)
  have ad: "activeDescendant (boxes d' b) = activeDescendant (boxes d1 b)" for b
    by (cases "b = this") (simp_all add: d'_def)
  have el: "elems d' = elems d" "fresh d' = fresh d"
    using d1(2,3) by (simp_all add: d'_def)
  have fo: "focus_ok d' b" for b
  proof (cases "truthy (activeDescendant (boxes d' b))")
    case False
    then show ?thesis by (simp add: focus_ok_def)
  next
    case True
    have same: "activeDescendant (boxes d' b) = activeDescendant (boxes d b)"
      and nohit: "b = this \<Longrightarrow>
         \<not> (\<exists>i \<in> set removed. Some (eid (elems d i)) = activeDescendant (boxes d this))"
      using True d1(8)[of b] d1(9) ad[of b]
      by (cases "b = this"; auto simp: truthy_def split: if_splits)+
    have "focus_ok d b" using wf by (simp add: well_formed_def)
    then obtain n where n: "n \<in> set (children (boxes d b))"
      "activeDescendant (boxes d b) = Some (eid (elems d n))"
      using True same by (auto simp: focus_ok_def)
    have "n \<notin> set removed"
    proof (cases "b = this")
      case True
      then show ?thesis using nohit n(2) by auto
    next
      case False
      then show ?thesis using not_in_other_box[OF dist, of n this b] sub(1) n(1) by auto
    qed
    then have "n \<in> set (children (boxes d' b))" using n(1) ch[of b] by simp
    then show ?thesis using n(2) same el by (auto simp: focus_ok_def)
  qed
  have wf': "well_formed d'"
  proof (rule well_formed_shrink[OF wf])
    show "set (all_options d') \<subseteq> set (all_options d)"
      using ch by (auto simp: all_options_def)
    show "distinct (all_options d')"
      using dist ch by (auto simp: all_options_def)
    show "\<And>n. n \<in> set (all_options d) \<Longrightarrow> eid (elems d' n) = eid (elems d n)"
      by (simp add: el)
    show "fresh d \<le> fresh d'" by (simp add: el)
    show "\<And>b. focus_ok d' b" by (rule fo)
    show "\<And>b. buttons_ok (boxes d' b)"
      using wf cf well_formed_buttons_ok by blast
  qed
  have ks: "keysSoFar (boxes d' b) = keysSoFar (boxes d b)" for b
    using d1(7)[of b] by (cases "b = this") (simp_all add: d'_def)
  have oth: "\<forall>b. b \<noteq> this \<longrightarrow> children (boxes d' b) = children (boxes d b) \<and>
                activeDescendant (boxes d' b) = activeDescendant (boxes d b) \<and>
                calls (boxes d' b) = calls (boxes d b)"
  proof (intro allI impI)
    fix b assume nb: "b \<noteq> this"
    have "calls (boxes d' b) = calls (boxes d b)"
      using nb d1(6)[of b] by (simp add: d'_def)
    then show "children (boxes d' b) = children (boxes d b) \<and>
                activeDescendant (boxes d' b) = activeDescendant (boxes d b) \<and>
                calls (boxes d' b) = calls (boxes d b)"
      using nb ch[of b] other[of b] d1(8)[of b] ad[of b] by simp
  qed
  have adt: "activeDescendant (boxes d' this) =
             (if \<exists>i \<in> set removed. Some (eid (elems d i)) = activeDescendant (boxes d this)
              then None else activeDescendant (boxes d this))"
    using d1(9) ad[of this] by simp
  have cl: "calls (boxes d' this) = calls (boxes d this) @ [ItemChange ''removed'' removed]"
    using d1(6)[of this] by (simp add: d'_def)
  show ?thesis
    using r wf' el ch[of this] cf ks oth adt cl False by auto
qed


lemma moveItems_unfold:
  assumes "siblingList (boxes d this) = Some s" and "deleteItems d this = Inr (removed, d1)"
  shows "moveItems d this = addItems d1 s removed"
  using assms by (simp add: moveItems_def)

lemma filter_mem_filter: "filter (\<lambda>n. n \<in> set (filter P xs)) xs = filter P xs"
  by (rule filter_cong) auto

lemma filter_single: "distinct xs \<Longrightarrow> c \<in> set xs \<Longrightarrow> filter (\<lambda>n. n \<in> set [c]) xs = [c]"
  by (induction xs) (auto simp: filter_empty_conv)

declare string_of_nat.simps [simp del]



lemma focusItem_well_formed:
  assumes wf: "well_formed d" and n: "n \<in> set (children (boxes d this))"
  shows "\<exists>d'. focusItem d this n = Inr d' \<and> well_formed d' \<and> same_layout d d' \<and>
           activeDescendant (boxes d' this) = Some (eid (elems d n)) \<and>
           (\<forall>b. b \<noteq> this \<longrightarrow> boxes d' b = boxes d b)"
proof -
  have bo: "buttons_ok (boxes d this)" using wf by (simp add: well_formed_def)
  obtain d' where d': "focusItem d this n = Inr d'" "same_layout d d'"
    "activeDescendant (boxes d' this) = Some (eid (elems d n))"
    "\<forall>b. b \<noteq> this \<longrightarrow> boxes d' b = boxes d b"
    using focusItem_summary[OF bo, of n] by blast
  have "focus_ok d' b" for b
  proof (cases "b = this")
    case True
    then show ?thesis using d'(2,3) n by (auto simp: focus_ok_def same_layout_def)
  next
    case False
    then have "activeDescendant (boxes d' b) = activeDescendant (boxes d b)"
      using d'(4) by simp
    then show ?thesis
      using same_layout_focus_ok[OF d'(2)] wf by (simp add: well_formed_def)
  qed
  then have "well_formed d'" using same_layout_well_formed[OF wf d'(2)] by blast
  then show ?thesis using d' by blast
qed

lemma indexOf_pivot: "c \<notin> set xs \<Longrightarrow> indexOf (xs @ c # ys) c = Some (length xs)"
  by (induction xs) auto

lemma indexOf_None: "c \<notin> set xs \<Longrightarrow> indexOf xs c = None"
  by (induction xs) auto

lemma indexOf_Some: "indexOf xs c = Some i \<Longrightarrow> i < length xs \<and> xs ! i = c"
  by (induction xs arbitrary: i) (auto split: if_splits)

lemma findNextOption_in_list:
  "findNextOption d this c = Some n \<Longrightarrow> n \<in> set (children (boxes d this))"
  by (auto simp: findNextOption_def Let_def split: option.splits if_splits)

lemma findPreviousOption_in_list:
  "findPreviousOption d this c = Some n \<Longrightarrow> n \<in> set (children (boxes d this))"
  by (auto simp: findPreviousOption_def Let_def dest!: indexOf_Some split: option.splits if_splits)

lemma findNextOption_pivot:
  assumes "distinct (children (boxes d this))" and "children (boxes d this) = xs @ c # ys"
  shows "findNextOption d this c = (case ys of [] \<Rightarrow> None | n # _ \<Rightarrow> Some n)"
proof -
  have "c \<notin> set xs" using assms by auto
  then have "indexOf (children (boxes d this)) c = Some (length xs)"
    using assms(2) by (simp add: indexOf_pivot)
  then show ?thesis
    using assms(2) by (cases ys) (simp_all add: findNextOption_def nth_append)
qed

lemma findPreviousOption_pivot:
  assumes "distinct (children (boxes d this))" and "children (boxes d this) = xs @ c # ys"
  shows "findPreviousOption d this c = (if xs = [] then None else Some (last xs))"
proof -
  have "c \<notin> set xs" using assms by auto
  then have "indexOf (children (boxes d this)) c = Some (length xs)"
    using assms(2) by (simp add: indexOf_pivot)
  then show ?thesis
    using assms(2) by (cases xs rule: rev_cases) (simp_all add: findPreviousOption_def nth_append)
qed

text \<open>In a well-formed document the item \<^verbatim>\<open>checkKeyPress\<close> starts from is the active
  descendant, or the first option when none is set.\<close>

lemma checkKeyPress_start:
  assumes wf: "well_formed d"
  shows "(case getElementById d (activeDescendant (boxes d this)) of
            Some n \<Rightarrow> Some n
          | None \<Rightarrow> (case children (boxes d this) of [] \<Rightarrow> None | x # _ \<Rightarrow> Some x)) =
         (if truthy (activeDescendant (boxes d this))
          then getElementById d (activeDescendant (boxes d this))
          else (case children (boxes d this) of [] \<Rightarrow> None | x # _ \<Rightarrow> Some x))"
  using getElementById_focus[OF wf, of this] getElementById_falsy[OF wf]
  by (auto split: option.splits)

lemma arrowKey_summary:
  assumes wf: "well_formed d" and k: "key evt = UP \<or> key evt = DOWN" and c: "\<not> ctrlKey evt"
  shows "\<exists>d'. checkKeyPress d this evt = Inr d' \<and> well_formed d' \<and> same_layout d d'"
proof -
  have dc: "distinct (children (boxes d this))"
    using wf by (cases this) (auto simp: well_formed_def all_options_def)
  show ?thesis
  proof (cases "truthy (activeDescendant (boxes d this))")
    case False
    then have g: "getElementById d (activeDescendant (boxes d this)) = None"
      using wf by (simp add: getElementById_falsy)
    show ?thesis
    proof (cases "children (boxes d this)")
      case Nil
      then have "checkKeyPress d this evt = Inr d" using g by (simp add: checkKeyPress_def)
      then show ?thesis using wf by simp
    next
      case (Cons x xs)
      then have "checkKeyPress d this evt = focusItem d this x"
        using g k False by (auto simp: checkKeyPress_def arrowKey_def)
      moreover have "x \<in> set (children (boxes d this))" using Cons by simp
      ultimately show ?thesis using focusItem_well_formed[OF wf] by fastforce
    qed
  next
    case True
    then obtain n where n: "n \<in> set (children (boxes d this))"
      "getElementById d (activeDescendant (boxes d this)) = Some n"
      using getElementById_focus[OF wf] by blast
    define r where "r = (if key evt = UP then findPreviousOption d this n
                 else findNextOption d this n)"
    have ck: "checkKeyPress d this evt = (case r of None \<Rightarrow> Inr d | Some m \<Rightarrow> focusItem d this m)"
      using n(2) k c True by (auto simp: checkKeyPress_def arrowKey_def r_def)
    show ?thesis
    proof (cases r)
      case None
      then show ?thesis using ck wf by simp
    next
      case (Some m)
      then have "m \<in> set (children (boxes d this))"
        using findNextOption_in_list findPreviousOption_in_list
        by (auto simp: r_def split: if_splits)
      then show ?thesis using ck Some focusItem_well_formed[OF wf] by fastforce
    qed
  qed
qed

















lemma string_of_nat_not_empty: "string_of_nat n \<noteq> []"
  by (simp add: string_of_nat.simps[of n])






















subsection \<open>Single selection\<close>

lemma single_select_ok_code [code]:
  "single_select_ok d =
     ((multiselectable (boxes d LB1) \<or>
        list_all (\<lambda>n. aria_selected (elems d n) \<noteq> Some ''true'' \<or>
                      activeDescendant (boxes d LB1) = Some (eid (elems d n)))
          (children (boxes d LB1))) \<and>
      (multiselectable (boxes d LB2) \<or>
        list_all (\<lambda>n. aria_selected (elems d n) \<noteq> Some ''true'' \<or>
                      activeDescendant (boxes d LB2) = Some (eid (elems d n)))
          (children (boxes d LB2))))"
  by (auto simp: single_select_ok_def all_lb list_all_iff)





subsection \<open>Up and Down keys\<close>

text \<open>
  In a well-formed document, every sequence of Up and Down key presses
  without the control key on a listbox returns normally, leaves the options of both
  listboxes where they were and ends in a well-formed document; in particular the
  active descendant, when set, is an option of the listbox. There is no wrap-around:
  Down on the last option and Up on the first option return the document unchanged.
  Between the ends, Down moves the focus to the next option and Up to the previous one.
\<close>

lemma arrow_keys_keep_focus_in_bounds:
  assumes "well_formed d"
  shows "(\<forall>evts. (\<forall>e \<in> set evts. (key e = UP \<or> key e = DOWN) \<and> \<not> ctrlKey e) \<longrightarrow>
           (\<exists>d'. exec_all d (map (\<lambda>e. (this, KeyPress e)) evts) = Inr d' \<and>
              well_formed d' \<and>
              (\<forall>b. children (boxes d' b) = children (boxes d b)) \<and>
              (truthy (activeDescendant (boxes d' this)) \<longrightarrow>
                 (\<exists>n \<in> set (children (boxes d this)).
                    getElementById d' (activeDescendant (boxes d' this)) = Some n)))) \<and>
         (\<forall>xs c. children (boxes d this) = xs @ [c] \<and>
              activeDescendant (boxes d this) = Some (eid (elems d c)) \<longrightarrow>
              checkKeyPress d this \<lparr>key = DOWN, ctrlKey = False\<rparr> = Inr d) \<and>
         (\<forall>c ys. children (boxes d this) = c # ys \<and>
              activeDescendant (boxes d this) = Some (eid (elems d c)) \<longrightarrow>
              checkKeyPress d this \<lparr>key = UP, ctrlKey = False\<rparr> = Inr d) \<and>
         (\<forall>xs p c n ys. children (boxes d this) = xs @ p # c # n # ys \<and>
              activeDescendant (boxes d this) = Some (eid (elems d c)) \<longrightarrow>
              (\<exists>d'. checkKeyPress d this \<lparr>key = DOWN, ctrlKey = False\<rparr> = Inr d' \<and>
                 activeDescendant (boxes d' this) = Some (eid (elems d n))) \<and>
              (\<exists>d'. checkKeyPress d this \<lparr>key = UP, ctrlKey = False\<rparr> = Inr d' \<and>
                 activeDescendant (boxes d' this) = Some (eid (elems d p))))"
proof (intro conjI allI impI)
  fix evts :: "event list"
  assume "\<forall>e \<in> set evts. (key e = UP \<or> key e = DOWN) \<and> \<not> ctrlKey e"
  then have "\<exists>d'. exec_all d (map (\<lambda>e. (this, KeyPress e)) evts) = Inr d' \<and>
              well_formed d' \<and> same_layout d d'"
    using assms
  proof (induction evts arbitrary: d)
    case Nil
    then show ?case by simp
  next
    case (Cons e evts)
    then obtain d1 where d1: "checkKeyPress d this e = Inr d1" "well_formed d1"
      "same_layout d d1"
      using arrowKey_summary[of d e this] by auto
    obtain d' where "exec_all d1 (map (\<lambda>e. (this, KeyPress e)) evts) = Inr d'"
      "well_formed d'" "same_layout d1 d'"
      using Cons.IH[OF _ d1(2)] Cons.prems(1) by auto
    then show ?case using d1 same_layout_trans by (auto simp: same_layout_trans)
  qed
  then obtain d' where d': "exec_all d (map (\<lambda>e. (this, KeyPress e)) evts) = Inr d'"
    "well_formed d'" "same_layout d d'" by blast
  have "\<exists>n \<in> set (children (boxes d this)).
          getElementById d' (activeDescendant (boxes d' this)) = Some n"
    if "truthy (activeDescendant (boxes d' this))"
    using getElementById_focus[OF d'(2) that] d'(3) by (auto simp: same_layout_def)
  then show "\<exists>d'. exec_all d (map (\<lambda>e. (this, KeyPress e)) evts) = Inr d' \<and>
              well_formed d' \<and>
              (\<forall>b. children (boxes d' b) = children (boxes d b)) \<and>
              (truthy (activeDescendant (boxes d' this)) \<longrightarrow>
                 (\<exists>n \<in> set (children (boxes d this)).
                    getElementById d' (activeDescendant (boxes d' this)) = Some n))"
    using d' by (auto simp: same_layout_def)
next
  fix xs c
  assume a: "children (boxes d this) = xs @ [c] \<and>
              activeDescendant (boxes d this) = Some (eid (elems d c))"
  have dc: "distinct (children (boxes d this))"
    using assms by (cases this) (auto simp: well_formed_def all_options_def)
  have "c \<in> set (children (boxes d this))" using a by simp
  then have call: "c \<in> set (all_options d)" by (auto simp: all_options_mem)
  have g: "getElementById d (activeDescendant (boxes d this)) = Some c"
    using a getElementById_own[OF assms call] by simp
  have t: "truthy (activeDescendant (boxes d this))"
    using getElementById_falsy[OF assms] g by fastforce
  have "findNextOption d this c = None"
    using findNextOption_pivot[OF dc, of xs c "[]"] a by simp
  then show "checkKeyPress d this \<lparr>key = DOWN, ctrlKey = False\<rparr> = Inr d"
    using g t by (simp add: checkKeyPress_def arrowKey_def)
next
  fix c ys
  assume a: "children (boxes d this) = c # ys \<and>
              activeDescendant (boxes d this) = Some (eid (elems d c))"
  have dc: "distinct (children (boxes d this))"
    using assms by (cases this) (auto simp: well_formed_def all_options_def)
  have "c \<in> set (children (boxes d this))" using a by simp
  then have call: "c \<in> set (all_options d)" by (auto simp: all_options_mem)
  have g: "getElementById d (activeDescendant (boxes d this)) = Some c"
    using a getElementById_own[OF assms call] by simp
  have t: "truthy (activeDescendant (boxes d this))"
    using getElementById_falsy[OF assms] g by fastforce
  have "findPreviousOption d this c = None"
    using findPreviousOption_pivot[OF dc, of "[]" c ys] a by simp
  then show "checkKeyPress d this \<lparr>key = UP, ctrlKey = False\<rparr> = Inr d"
    using g t by (simp add: checkKeyPress_def arrowKey_def)
next
  fix xs p c n ys
  assume a: "children (boxes d this) = xs @ p # c # n # ys \<and>
              activeDescendant (boxes d this) = Some (eid (elems d c))"
  have dc: "distinct (children (boxes d this))"
    using assms by (cases this) (auto simp: well_formed_def all_options_def)
  have "c \<in> set (children (boxes d this))" using a by simp
  then have call: "c \<in> set (all_options d)" by (auto simp: all_options_mem)
  have g: "getElementById d (activeDescendant (boxes d this)) = Some c"
    using a getElementById_own[OF assms call] by simp
  have t: "truthy (activeDescendant (boxes d this))"
    using getElementById_falsy[OF assms] g by fastforce
  have nx: "findNextOption d this c = Some n"
    using findNextOption_pivot[OF dc, of "xs @ [p]" c "n # ys"] a by simp
  have pv: "findPreviousOption d this c = Some p"
    using findPreviousOption_pivot[OF dc, of "xs @ [p]" c "n # ys"] a by simp
  have "checkKeyPress d this \<lparr>key = DOWN, ctrlKey = False\<rparr> = focusItem d this n"
    using g t nx by (simp add: checkKeyPress_def arrowKey_def)
  moreover have "n \<in> set (children (boxes d this))" using a by simp
  ultimately show "\<exists>d'. checkKeyPress d this \<lparr>key = DOWN, ctrlKey = False\<rparr> = Inr d' \<and>
                 activeDescendant (boxes d' this) = Some (eid (elems d n))"
    using focusItem_well_formed[OF assms, of n this] by auto
  have "checkKeyPress d this \<lparr>key = UP, ctrlKey = False\<rparr> = focusItem d this p"
    using g t pv by (simp add: checkKeyPress_def arrowKey_def)
  moreover have "p \<in> set (children (boxes d this))" using a by simp
  ultimately show "\<exists>d'. checkKeyPress d this \<lparr>key = UP, ctrlKey = False\<rparr> = Inr d' \<and>
                 activeDescendant (boxes d' this) = Some (eid (elems d p))"
    using focusItem_well_formed[OF assms, of p this] by auto
qed

lemma arrow_keys_keep_focus_in_bounds_example:
  "well_formed (sample_document True True [] (Some ''opt-2'')) \<and>
   well_formed (sample_document True True [] (Some ''opt-0'')) \<and>
   well_formed (sample_document True True [] (Some ''opt-1'')) \<and>
   (\<exists>d'. exec_all (sample_document True True [] (Some ''opt-2''))
            (map (\<lambda>e. (LB1, KeyPress e))
               [\<lparr>key = DOWN, ctrlKey = False\<rparr>, \<lparr>key = UP, ctrlKey = False\<rparr>,
                \<lparr>key = DOWN, ctrlKey = False\<rparr>, \<lparr>key = DOWN, ctrlKey = False\<rparr>]) = Inr d' \<and>
      well_formed d' \<and> children (boxes d' LB1) = [0, 1, 2]) \<and>
   checkKeyPress (sample_document True True [] (Some ''opt-2'')) LB1
      \<lparr>key = DOWN, ctrlKey = False\<rparr> = Inr (sample_document True True [] (Some ''opt-2'')) \<and>
   checkKeyPress (sample_document True True [] (Some ''opt-0'')) LB1
      \<lparr>key = UP, ctrlKey = False\<rparr> = Inr (sample_document True True [] (Some ''opt-0'')) \<and>
   (\<exists>d'. checkKeyPress (sample_document True True [] (Some ''opt-1'')) LB1
            \<lparr>key = DOWN, ctrlKey = False\<rparr> = Inr d' \<and>
          activeDescendant (boxes d' LB1) = Some ''opt-2'') \<and>
   (\<exists>d'. checkKeyPress (sample_document True True [] (Some ''opt-1'')) LB1
            \<lparr>key = UP, ctrlKey = False\<rparr> = Inr d' \<and>
          activeDescendant (boxes d' LB1) = Some ''opt-0'')"
proof -
  let ?A = "sample_document True True [] (Some ''opt-2'')"
  let ?B = "sample_document True True [] (Some ''opt-0'')"
  let ?C = "sample_document True True [] (Some ''opt-1'')"
  let ?evts = "[\<lparr>key = DOWN, ctrlKey = False\<rparr>, \<lparr>key = UP, ctrlKey = False\<rparr>,
                \<lparr>key = DOWN, ctrlKey = False\<rparr>, \<lparr>key = DOWN, ctrlKey = False\<rparr>]"
  have wa: "well_formed ?A" by code_simp
  have wb: "well_formed ?B" by code_simp
  have wc: "well_formed ?C" by code_simp
  have ev: "\<forall>e \<in> set ?evts. (key e = UP \<or> key e = DOWN) \<and> \<not> ctrlKey e" by simp
  have ca: "children (boxes ?A LB1) = [0, 1] @ [2] \<and>
      activeDescendant (boxes ?A LB1) = Some (eid (elems ?A 2))" by code_simp
  have cb: "children (boxes ?B LB1) = 0 # [1, 2] \<and>
      activeDescendant (boxes ?B LB1) = Some (eid (elems ?B 0))" by code_simp
  have cc: "children (boxes ?C LB1) = [] @ 0 # 1 # 2 # [] \<and>
      activeDescendant (boxes ?C LB1) = Some (eid (elems ?C 1))" by code_simp
  have va: "children (boxes ?A LB1) = [0, 1, 2]" by code_simp
  have vc: "Some (eid (elems ?C 2)) = Some ''opt-2''" "Some (eid (elems ?C 0)) = Some ''opt-0''"
    by code_simp+
  note a = arrow_keys_keep_focus_in_bounds[OF wa, of LB1]
  note b = arrow_keys_keep_focus_in_bounds[OF wb, of LB1]
  note c = arrow_keys_keep_focus_in_bounds[OF wc, of LB1]
  have 1: "\<exists>d'. exec_all ?A (map (\<lambda>e. (LB1, KeyPress e)) ?evts) = Inr d' \<and>
      well_formed d' \<and> children (boxes d' LB1) = [0, 1, 2]"
    using a ev va by metis
  have 2: "checkKeyPress ?A LB1 \<lparr>key = DOWN, ctrlKey = False\<rparr> = Inr ?A"
    using a ca by blast
  have 3: "checkKeyPress ?B LB1 \<lparr>key = UP, ctrlKey = False\<rparr> = Inr ?B"
    using b cb by blast
  have 4: "(\<exists>d'. checkKeyPress ?C LB1 \<lparr>key = DOWN, ctrlKey = False\<rparr> = Inr d' \<and>
          activeDescendant (boxes d' LB1) = Some (eid (elems ?C 2))) \<and>
      (\<exists>d'. checkKeyPress ?C LB1 \<lparr>key = UP, ctrlKey = False\<rparr> = Inr d' \<and>
          activeDescendant (boxes d' LB1) = Some (eid (elems ?C 0)))"
    using c cc by blast
  show ?thesis using wa wb wc 1 2 3 4 unfolding vc by blast
qed

text \<open>
  Claim C2 (for every sequence of Up and Down key presses the focus stays within the
  first and the last item; Down on the last item and Up on the first leave the focus
  unchanged). The code finds the focused item with \<^verbatim>\<open>document.getElementById\<close>, so it
  relies on ids that are unique in the document, and \<^verbatim>\<open>createListItems\<close> does not
  provide them: its \<open>counter\<close> is a local variable that starts at 0 on every call, so the
  \<open>uniqueId\<close> of the first item is \<^verbatim>\<open>item-0\<close> each time. Here \<^verbatim>\<open>createListItems\<close> is called
  with the labels a, b and then with c on the same listbox, which gives the options 0, 1
  and 2 with the ids \<^verbatim>\<open>item-0\<close>, \<^verbatim>\<open>item-1\<close> and \<^verbatim>\<open>item-0\<close>. A click focuses the last
  option. Down then looks up \<^verbatim>\<open>item-0\<close>, finds the first option, and moves the focus to
  the one after it: the focus goes from the last option back to the second.
\<close>

theorem C2_down_on_last_option_moves_focus:
  "case exec_all (empty_document False False)
     [(LB1, CreateListItems [''a'', ''b'']),
      (LB1, CreateListItems [''c'']),
      (LB1, ClickItem (Some 2))] of
     Inl e \<Rightarrow> False
   | Inr d \<Rightarrow>
       children (boxes d LB1) = [0, 1, 2] \<and>
       map (\<lambda>n. eid (elems d n)) (children (boxes d LB1)) = [''item-0'', ''item-1'', ''item-0''] \<and>
       last (calls (boxes d LB1)) = FocusChange 2 \<and>
       filter (\<lambda>n. focused (elems d n)) (children (boxes d LB1)) = [2] \<and>
       activeDescendant (boxes d LB1) = Some (eid (elems d 2)) \<and>
       (case checkKeyPress d LB1 \<lparr>key = DOWN, ctrlKey = False\<rparr> of
          Inl e \<Rightarrow> False
        | Inr d1 \<Rightarrow>
            children (boxes d1 LB1) = [0, 1, 2] \<and>
            last (calls (boxes d1 LB1)) = FocusChange 1 \<and>
            activeDescendant (boxes d1 LB1) = Some ''item-1'' \<and>
            getElementById d1 (activeDescendant (boxes d1 LB1)) = Some 1)"
  by code_simp

subsection \<open>Deleting items\<close>

text \<open>
  In a well-formed document \<^verbatim>\<open>deleteItems\<close> returns normally. In a
  multi-select listbox the returned items are exactly the options with
  \<^verbatim>\<open>aria-selected="true"\<close>, in list order; in a single-select listbox they are the
  active descendant alone, or nothing when none is set. The options left are the former
  ones without the returned items, the other listbox and all elements are untouched, the
  active descendant is cleared if the element it names is among the returned items and
  is unchanged otherwise, and the handler is told \<^verbatim>\<open>('removed', items)\<close>. When no item
  qualifies the result is the empty list and the document is unchanged.
\<close>

lemma deleteItems_removes_qualifying_items:
  assumes "well_formed d"
  shows "\<exists>removed d'. deleteItems d this = Inr (removed, d') \<and>
     (multiselectable (boxes d this) \<longrightarrow>
        removed = filter (\<lambda>n. aria_selected (elems d n) = Some ''true'')
                    (children (boxes d this))) \<and>
     (\<not> multiselectable (boxes d this) \<longrightarrow>
        removed = (case getElementById d (activeDescendant (boxes d this)) of
                     None \<Rightarrow> [] | Some c \<Rightarrow> [c])) \<and>
     children (boxes d' this) =
        filter (\<lambda>n. n \<notin> set removed) (children (boxes d this)) \<and>
     (\<forall>b. b \<noteq> this \<longrightarrow> children (boxes d' b) = children (boxes d b)) \<and>
     elems d' = elems d \<and>
     activeDescendant (boxes d' this) =
       (if \<exists>c \<in> set removed. getElementById d (activeDescendant (boxes d this)) = Some c
        then None else activeDescendant (boxes d this)) \<and>
     (removed \<noteq> [] \<longrightarrow> last (calls (boxes d' this)) = ItemChange ''removed'' removed) \<and>
     (removed = [] \<longrightarrow> d' = d)"
proof -
  define removed where "removed = (if multiselectable (boxes d this)
        then filter (\<lambda>n. aria_selected (elems d n) = Some ''true'') (children (boxes d this))
        else (case getElementById d (activeDescendant (boxes d this)) of
                None \<Rightarrow> [] | Some c \<Rightarrow> [c]))"
  obtain d' where d': "deleteItems d this = Inr (removed, d')"
    "elems d' = elems d"
    "children (boxes d' this) = filter (\<lambda>n. n \<notin> set removed) (children (boxes d this))"
    "\<forall>b. b \<noteq> this \<longrightarrow> children (boxes d' b) = children (boxes d b) \<and>
                activeDescendant (boxes d' b) = activeDescendant (boxes d b) \<and>
                calls (boxes d' b) = calls (boxes d b)"
    "activeDescendant (boxes d' this) =
             (if \<exists>i \<in> set removed. Some (eid (elems d i)) = activeDescendant (boxes d this)
              then None else activeDescendant (boxes d this))"
    "calls (boxes d' this) = calls (boxes d this) @
             (if removed = [] then [] else [ItemChange ''removed'' removed])"
    "removed = [] \<longrightarrow> d' = d"
    using deleteItems_summary[OF assms removed_def] by blast
  note sub = removed_in_list[OF assms removed_def]
  have iff: "(\<exists>i \<in> set removed. Some (eid (elems d i)) = activeDescendant (boxes d this)) =
     (\<exists>c \<in> set removed. getElementById d (activeDescendant (boxes d this)) = Some c)"
  proof
    assume "\<exists>i \<in> set removed. Some (eid (elems d i)) = activeDescendant (boxes d this)"
    then obtain i where i: "i \<in> set removed"
      "Some (eid (elems d i)) = activeDescendant (boxes d this)" by blast
    then have "i \<in> set (all_options d)" using sub(1) by (auto simp: all_options_mem)
    then have "getElementById d (activeDescendant (boxes d this)) = Some i"
      using getElementById_own[OF assms] i(2) by metis
    then show "\<exists>c \<in> set removed. getElementById d (activeDescendant (boxes d this)) = Some c"
      using i(1) by blast
  next
    assume "\<exists>c \<in> set removed. getElementById d (activeDescendant (boxes d this)) = Some c"
    then obtain c where c: "c \<in> set removed"
      "getElementById d (activeDescendant (boxes d this)) = Some c" by blast
    then have t: "truthy (activeDescendant (boxes d this))"
      using getElementById_falsy[OF assms] by fastforce
    have "eid (elems d c) = js_string (activeDescendant (boxes d this))"
      using getElementById_SomeD[OF c(2)] by simp
    then have "Some (eid (elems d c)) = activeDescendant (boxes d this)"
      using t by (auto simp: truthy_def js_string_def)
    then show "\<exists>i \<in> set removed. Some (eid (elems d i)) = activeDescendant (boxes d this)"
      using c(1) by blast
  qed
  show ?thesis
    using d'(1,2,3,4,6,7) d'(5)[unfolded iff] by (auto simp: removed_def)
qed

lemma deleteItems_removes_qualifying_items_example:
  "well_formed (sample_document True True [0, 2] (Some ''opt-2'')) \<and>
   well_formed (sample_document False True [1] (Some ''opt-1'')) \<and>
   (\<exists>d'. deleteItems (sample_document True True [0, 2] (Some ''opt-2'')) LB1 = Inr ([0, 2], d') \<and>
      children (boxes d' LB1) = [1] \<and> activeDescendant (boxes d' LB1) = None) \<and>
   (\<exists>d'. deleteItems (sample_document False True [1] (Some ''opt-1'')) LB1 = Inr ([1], d') \<and>
      children (boxes d' LB1) = [0, 2] \<and> activeDescendant (boxes d' LB1) = None)"
proof -
  let ?A = "sample_document True True [0, 2] (Some ''opt-2'')"
  let ?B = "sample_document False True [1] (Some ''opt-1'')"
  have wa: "well_formed ?A" by code_simp
  have wb: "well_formed ?B" by code_simp
  have ma: "multiselectable (boxes ?A LB1)" by code_simp
  have mb: "\<not> multiselectable (boxes ?B LB1)" by code_simp
  have ra: "filter (\<lambda>n. aria_selected (elems ?A n) = Some ''true'') (children (boxes ?A LB1))
      = [0, 2]" by code_simp
  have rb: "(case getElementById ?B (activeDescendant (boxes ?B LB1)) of
                     None \<Rightarrow> [] | Some c \<Rightarrow> [c]) = [1]" by code_simp
  have ca: "filter (\<lambda>n. n \<notin> set [0, 2]) (children (boxes ?A LB1)) = [1]" by code_simp
  have cb: "filter (\<lambda>n. n \<notin> set [1]) (children (boxes ?B LB1)) = [0, 2]" by code_simp
  have fa: "(\<exists>c \<in> set [0, 2]. getElementById ?A (activeDescendant (boxes ?A LB1)) = Some c)"
    by code_simp
  have fb: "(\<exists>c \<in> set [1]. getElementById ?B (activeDescendant (boxes ?B LB1)) = Some c)"
    by code_simp
  obtain ra' da where a: "deleteItems ?A LB1 = Inr (ra', da)"
    "ra' = filter (\<lambda>n. aria_selected (elems ?A n) = Some ''true'') (children (boxes ?A LB1))"
    "children (boxes da LB1) = filter (\<lambda>n. n \<notin> set ra') (children (boxes ?A LB1))"
    "activeDescendant (boxes da LB1) =
       (if \<exists>c \<in> set ra'. getElementById ?A (activeDescendant (boxes ?A LB1)) = Some c
        then None else activeDescendant (boxes ?A LB1))"
    using deleteItems_removes_qualifying_items[OF wa, of LB1] ma by blast
  obtain rb' db where b: "deleteItems ?B LB1 = Inr (rb', db)"
    "rb' = (case getElementById ?B (activeDescendant (boxes ?B LB1)) of
                     None \<Rightarrow> [] | Some c \<Rightarrow> [c])"
    "children (boxes db LB1) = filter (\<lambda>n. n \<notin> set rb') (children (boxes ?B LB1))"
    "activeDescendant (boxes db LB1) =
       (if \<exists>c \<in> set rb'. getElementById ?B (activeDescendant (boxes ?B LB1)) = Some c
        then None else activeDescendant (boxes ?B LB1))"
    using deleteItems_removes_qualifying_items[OF wb, of LB1] mb by blast
  have "deleteItems ?A LB1 = Inr ([0, 2], da) \<and>
      children (boxes da LB1) = [1] \<and> activeDescendant (boxes da LB1) = None"
    using a ra ca fa by simp
  moreover have "deleteItems ?B LB1 = Inr ([1], db) \<and>
      children (boxes db LB1) = [0, 2] \<and> activeDescendant (boxes db LB1) = None"
    using b rb cb fb by simp
  ultimately show ?thesis using wa wb by blast
qed

text \<open>
  Claim C3 (\<^verbatim>\<open>deleteItems\<close> removes, in single-select mode, only the focused item of the
  listbox, and clears the focus iff that item was removed). The focused item is looked
  up with \<^verbatim>\<open>document.getElementById\<close>, and \<^verbatim>\<open>createListItems\<close> numbers its ids from
  \<^verbatim>\<open>item-0\<close> on every call, in every listbox. Here the first listbox gets the labels a
  and b and the second, single-select, listbox the label c: the options 0 and 1 of the
  first and the option 2 of the second, with the ids \<^verbatim>\<open>item-0\<close>, \<^verbatim>\<open>item-1\<close> and
  \<^verbatim>\<open>item-0\<close>. The second listbox has its own option as active descendant. Its
  \<^verbatim>\<open>deleteItems\<close> returns the option 0 and removes it from the first listbox; its own
  focused option stays in the list, and its focus is cleared all the same.
\<close>

theorem C3_deleteItems_removes_option_of_other_listbox:
  "case exec_all (empty_document False False)
     [(LB1, CreateListItems [''a'', ''b'']),
      (LB2, CreateListItems [''c''])] of
     Inl e \<Rightarrow> False
   | Inr d \<Rightarrow>
       \<not> multiselectable (boxes d LB2) \<and>
       children (boxes d LB1) = [0, 1] \<and>
       children (boxes d LB2) = [2] \<and>
       map (\<lambda>n. eid (elems d n)) [0, 1, 2] = [''item-0'', ''item-1'', ''item-0''] \<and>
       last (calls (boxes d LB2)) = ItemChange ''added'' [2] \<and>
       filter (\<lambda>n. focused (elems d n)) (children (boxes d LB2)) = [2] \<and>
       activeDescendant (boxes d LB2) = Some (eid (elems d 2)) \<and>
       (case deleteItems d LB2 of
          Inl e \<Rightarrow> False
        | Inr (removed, d1) \<Rightarrow>
            removed = [0] \<and>
            children (boxes d1 LB1) = [1] \<and>
            children (boxes d1 LB2) = [2] \<and>
            activeDescendant (boxes d1 LB2) = None \<and>
            last (calls (boxes d1 LB2)) = ItemChange ''removed'' [0])"
  by code_simp

subsection \<open>Moving items to the sibling list\<close>

text \<open>
  In a well-formed document, \<^verbatim>\<open>moveItems\<close> on a listbox without a sibling
  returns the document unchanged. With another listbox as sibling it returns normally;
  the items \<^verbatim>\<open>deleteItems\<close> returns leave the source, and the options of the sibling
  are its former options followed by those items. The items are a subsequence of the
  source's options, so they arrive in the relative order they had there.
\<close>

lemma moveItems_appends_to_sibling:
  assumes "well_formed d"
  shows "(siblingList (boxes d this) = None \<longrightarrow> moveItems d this = Inr d) \<and>
    (\<forall>s. siblingList (boxes d this) = Some s \<and> s \<noteq> this \<longrightarrow>
       (\<exists>removed d1 d'. deleteItems d this = Inr (removed, d1) \<and>
           moveItems d this = Inr d' \<and>
           children (boxes d' this) =
             filter (\<lambda>n. n \<notin> set removed) (children (boxes d this)) \<and>
           children (boxes d' s) = children (boxes d s) @ removed \<and>
           removed = filter (\<lambda>n. n \<in> set removed) (children (boxes d this))))"
proof (intro conjI allI impI)
  assume "siblingList (boxes d this) = None"
  then show "moveItems d this = Inr d" by (simp add: moveItems_def)
next
  fix s
  assume s: "siblingList (boxes d this) = Some s \<and> s \<noteq> this"
  define removed where "removed = (if multiselectable (boxes d this)
        then filter (\<lambda>n. aria_selected (elems d n) = Some ''true'') (children (boxes d this))
        else (case getElementById d (activeDescendant (boxes d this)) of
                None \<Rightarrow> [] | Some c \<Rightarrow> [c]))"
  obtain d1 where d1: "deleteItems d this = Inr (removed, d1)" "well_formed d1"
    "children (boxes d1 this) = filter (\<lambda>n. n \<notin> set removed) (children (boxes d this))"
    "\<forall>b. b \<noteq> this \<longrightarrow> children (boxes d1 b) = children (boxes d b) \<and>
                activeDescendant (boxes d1 b) = activeDescendant (boxes d b) \<and>
                calls (boxes d1 b) = calls (boxes d b)"
    "removed = [] \<longrightarrow> d1 = d"
    using deleteItems_summary[OF assms removed_def] by blast
  note sub = removed_in_list[OF assms removed_def]
  have dist: "distinct (all_options d)" using assms by (simp add: well_formed_def)
  have dc: "distinct (children (boxes d this))"
    using dist by (cases this) (auto simp: all_options_def)
  have mv: "moveItems d this = addItems d1 s removed"
    using s d1(1) by (simp add: moveItems_unfold)
  have order: "removed = filter (\<lambda>n. n \<in> set removed) (children (boxes d this))"
  proof (cases "multiselectable (boxes d this)")
    case True
    then have "removed = filter (\<lambda>n. aria_selected (elems d n) = Some ''true'')
        (children (boxes d this))" by (simp add: removed_def)
    then show ?thesis
      using filter_mem_filter[of "\<lambda>n. aria_selected (elems d n) = Some ''true''"
          "children (boxes d this)"] by simp
  next
    case False
    show ?thesis
    proof (cases "getElementById d (activeDescendant (boxes d this))")
      case None
      then show ?thesis using False by (simp add: removed_def)
    next
      case (Some c)
      then have r: "removed = [c]" using False by (simp add: removed_def)
      then have "c \<in> set (children (boxes d this))" using sub(1) by simp
      then show ?thesis using filter_single[OF dc] r by simp
    qed
  qed
  have sfil: "filter (\<lambda>n. n \<notin> set removed) (children (boxes d s)) = children (boxes d s)"
  proof (rule filter_True, intro ballI notI)
    fix x assume "x \<in> set (children (boxes d s))" "x \<in> set removed"
    then show False using not_in_other_box[OF dist, of x this s] sub(1) s by auto
  qed
  have "\<exists>d'. moveItems d this = Inr d' \<and>
           children (boxes d' this) =
             filter (\<lambda>n. n \<notin> set removed) (children (boxes d this)) \<and>
           children (boxes d' s) = children (boxes d s) @ removed"
  proof (cases "removed = []")
    case True
    then show ?thesis using mv d1(5) by (simp add: addItems_def)
  next
    case False
    have bo: "buttons_ok (boxes d1 s)" using d1(2) by (simp add: well_formed_def)
    obtain d' where d': "addItems d1 s removed = Inr d'"
      "\<forall>b. children (boxes d' b) =
           filter (\<lambda>n. n \<notin> set removed) (children (boxes d1 b)) @
             (if b = s then removed else []) \<and>
         same_config (boxes d1 b) (boxes d' b) \<and>
         keysSoFar (boxes d' b) = keysSoFar (boxes d1 b)"
      using addItems_summary[OF False bo sub(2)] by blast
    have "children (boxes d' this) =
             filter (\<lambda>n. n \<notin> set removed) (children (boxes d this))"
      using d'(2) d1(3) s by auto
    moreover have "children (boxes d' s) = children (boxes d s) @ removed"
      using d'(2) d1(4) s sfil by auto
    ultimately show ?thesis using mv d'(1) by simp
  qed
  then show "\<exists>removed d1 d'. deleteItems d this = Inr (removed, d1) \<and>
           moveItems d this = Inr d' \<and>
           children (boxes d' this) =
             filter (\<lambda>n. n \<notin> set removed) (children (boxes d this)) \<and>
           children (boxes d' s) = children (boxes d s) @ removed \<and>
           removed = filter (\<lambda>n. n \<in> set removed) (children (boxes d this))"
    using d1(1) order by blast
qed

lemma moveItems_appends_to_sibling_example:
  "well_formed (sample_document True True [0, 2] (Some ''opt-1'')) \<and>
   siblingList (boxes (sample_document True True [0, 2] (Some ''opt-1'')) LB1) = Some LB2 \<and>
   siblingList (boxes (sample_document True True [0, 2] (Some ''opt-1'')) LB2) = None \<and>
   (\<exists>d'. moveItems (sample_document True True [0, 2] (Some ''opt-1'')) LB1 = Inr d' \<and>
      children (boxes d' LB1) = [1] \<and> children (boxes d' LB2) = [3, 4, 0, 2]) \<and>
   (\<exists>d'. moveItems (sample_document True True [0, 2] (Some ''opt-1'')) LB2 = Inr d' \<and>
      children (boxes d' LB1) = [0, 1, 2] \<and> children (boxes d' LB2) = [3, 4])"
proof -
  let ?A = "sample_document True True [0, 2] (Some ''opt-1'')"
  have wa: "well_formed ?A" by code_simp
  have s1: "siblingList (boxes ?A LB1) = Some LB2" by code_simp
  have s2: "siblingList (boxes ?A LB2) = None" by code_simp
  have ch: "children (boxes ?A LB1) = [0, 1, 2]" "children (boxes ?A LB2) = [3, 4]"
    by code_simp+
  have dl: "case deleteItems ?A LB1 of Inl e \<Rightarrow> False | Inr (r, d1) \<Rightarrow> r = [0, 2]"
    by code_simp
  obtain removed d1 d' where m: "deleteItems ?A LB1 = Inr (removed, d1)"
    "moveItems ?A LB1 = Inr d'"
    "children (boxes d' LB1) = filter (\<lambda>n. n \<notin> set removed) (children (boxes ?A LB1))"
    "children (boxes d' LB2) = children (boxes ?A LB2) @ removed"
    using moveItems_appends_to_sibling[OF wa, of LB1] s1 by blast
  have r: "removed = [0, 2]" using dl m(1) by simp
  have a: "\<exists>d'. moveItems ?A LB1 = Inr d' \<and>
      children (boxes d' LB1) = [1] \<and> children (boxes d' LB2) = [3, 4, 0, 2]"
    using m(2,3,4) r ch by auto
  have "moveItems ?A LB2 = Inr ?A"
    using moveItems_appends_to_sibling[OF wa, of LB2] s2 by blast
  then have b: "\<exists>d'. moveItems ?A LB2 = Inr d' \<and>
      children (boxes d' LB1) = [0, 1, 2] \<and> children (boxes d' LB2) = [3, 4]"
    using ch by simp
  show ?thesis using wa s1 s2 a b by blast
qed

text \<open>
  Claim C4 (\<^verbatim>\<open>moveItems\<close> removes the qualifying items from the source list and appends
  them to the sibling's list). \<^verbatim>\<open>moveItems\<close> takes the items from \<^verbatim>\<open>deleteItems\<close>, which
  looks the focused item up with \<^verbatim>\<open>document.getElementById\<close>, and \<^verbatim>\<open>createListItems\<close>
  numbers its ids from \<^verbatim>\<open>item-0\<close> on every call, in every listbox. Here the first
  listbox gets the labels a and b, the second, single-select, listbox the label c, and
  \<^verbatim>\<open>setupMove\<close> makes the first the sibling of the second. The second listbox has its
  own option 2 as active descendant. Its \<^verbatim>\<open>moveItems\<close> leaves that option where it is:
  it takes the option 0 out of the sibling's list and appends it there again.
\<close>

theorem C4_moveItems_keeps_the_focused_option:
  "case exec_all (empty_document False False)
     [(LB1, CreateListItems [''a'', ''b'']),
      (LB2, CreateListItems [''c'']),
      (LB2, SetupMove \<lparr>aria_disabled = None, aria_keyshortcuts = Some ''Alt+ArrowLeft Enter''\<rparr>
              LB1)] of
     Inl e \<Rightarrow> False
   | Inr d \<Rightarrow>
       \<not> multiselectable (boxes d LB2) \<and>
       siblingList (boxes d LB2) = Some LB1 \<and>
       children (boxes d LB1) = [0, 1] \<and>
       children (boxes d LB2) = [2] \<and>
       map (\<lambda>n. eid (elems d n)) [0, 1, 2] = [''item-0'', ''item-1'', ''item-0''] \<and>
       filter (\<lambda>n. focused (elems d n)) (children (boxes d LB2)) = [2] \<and>
       activeDescendant (boxes d LB2) = Some (eid (elems d 2)) \<and>
       (case moveItems d LB2 of
          Inl e \<Rightarrow> False
        | Inr d1 \<Rightarrow>
            children (boxes d1 LB2) = [2] \<and>
            children (boxes d1 LB1) = [1, 0] \<and>
            last (calls (boxes d1 LB2)) = ItemChange ''removed'' [0] \<and>
            last (calls (boxes d1 LB1)) = ItemChange ''added'' [0])"
  by code_simp

subsection \<open>The flags of added items\<close>



subsection \<open>Adding items\<close>

text \<open>
  Claim C6. \<^verbatim>\<open>addItems\<close> with a non-empty array of distinct elements returns normally
  (given that a listbox with reordering enabled has both of its buttons). The options of
  the listbox are then the former ones, without any that are in the array, followed by
  the array; so elements that were not options of the list are appended to the end. The
  last handler call is \<^verbatim>\<open>handleItemChange('added', items)\<close> with exactly the array. If
  the active descendant was not set, the first element of the array becomes the active
  descendant and gets the class \<^verbatim>\<open>focused\<close>, and the focus handler is called for it;
  if it was set, it is unchanged and the only call added is the one for the item change.
\<close>

theorem C6_addItems_appends_and_focuses_first:
  assumes "items \<noteq> []" and "distinct items" and "buttons_ok (boxes d this)"
  shows "\<exists>d'. addItems d this items = Inr d' \<and>
     children (boxes d' this) =
       filter (\<lambda>n. n \<notin> set items) (children (boxes d this)) @ items \<and>
     (set items \<inter> set (children (boxes d this)) = {} \<longrightarrow>
        children (boxes d' this) = children (boxes d this) @ items) \<and>
     last (calls (boxes d' this)) = ItemChange ''added'' items \<and>
     (\<not> truthy (activeDescendant (boxes d this)) \<longrightarrow>
        activeDescendant (boxes d' this) = Some (eid (elems d (hd items))) \<and>
        focused (elems d' (hd items)) \<and>
        calls (boxes d' this) =
          calls (boxes d this) @ [FocusChange (hd items), ItemChange ''added'' items]) \<and>
     (truthy (activeDescendant (boxes d this)) \<longrightarrow>
        activeDescendant (boxes d' this) = activeDescendant (boxes d this) \<and>
        calls (boxes d' this) = calls (boxes d this) @ [ItemChange ''added'' items])"
proof -
  obtain d' where d': "addItems d this items = Inr d'"
    and ch: "\<forall>b. children (boxes d' b) =
           filter (\<lambda>n. n \<notin> set items) (children (boxes d b)) @ (if b = this then items else []) \<and>
         same_config (boxes d b) (boxes d' b) \<and>
         keysSoFar (boxes d' b) = keysSoFar (boxes d b)"
    and ad: "activeDescendant (boxes d' this) =
      (if truthy (activeDescendant (boxes d this)) then activeDescendant (boxes d this)
       else Some (eid (elems d (hd items))))"
    and cl: "calls (boxes d' this) =
      calls (boxes d this) @
      (if truthy (activeDescendant (boxes d this)) then [] else [FocusChange (hd items)]) @
      [ItemChange ''added'' items]"
    and el: "(if truthy (activeDescendant (boxes d this))
     then elems d' = elems (addItems_each d this items)
     else elems d' =
       (let e1 = elems (defocusItem (addItems_each d this items) this
                   (getElementById (addItems_each d this items) (activeDescendant (boxes d this))))
        in e1(hd items := (e1 (hd items))\<lparr>
             aria_selected := (if multiselectable (boxes d this)
                               then aria_selected (e1 (hd items)) else Some ''true''),
             focused := True\<rparr>)))"
    using addItems_summary[OF assms(1,3,2)] by blast
  have c1: "children (boxes d' this) =
       filter (\<lambda>n. n \<notin> set items) (children (boxes d this)) @ items"
    using ch by simp
  have c2: "set items \<inter> set (children (boxes d this)) = {} \<Longrightarrow>
        filter (\<lambda>n. n \<notin> set items) (children (boxes d this)) = children (boxes d this)"
    by (rule filter_True) auto
  have c3: "\<not> truthy (activeDescendant (boxes d this)) \<Longrightarrow> focused (elems d' (hd items))"
    using el by (simp add: Let_def)
  show ?thesis
    using d' c1 c2 c3 ad cl by auto
qed

theorem C6_witness:
  "(\<exists>d'. addItems (sample_document True True [] None) LB1 [5, 6] = Inr d' \<and>
      children (boxes d' LB1) = [0, 1, 2, 5, 6] \<and>
      last (calls (boxes d' LB1)) = ItemChange ''added'' [5, 6] \<and>
      activeDescendant (boxes d' LB1) = Some ''opt-5'' \<and>
      focused (elems d' 5)) \<and>
   (\<exists>d'. addItems (sample_document True True [] (Some ''opt-1'')) LB1 [5, 6] = Inr d' \<and>
      children (boxes d' LB1) = [0, 1, 2, 5, 6] \<and>
      last (calls (boxes d' LB1)) = ItemChange ''added'' [5, 6] \<and>
      activeDescendant (boxes d' LB1) = Some ''opt-1'')"
proof -
  let ?A = "sample_document True True [] None"
  let ?B = "sample_document True True [] (Some ''opt-1'')"
  have i: "[5, 6] \<noteq> ([] :: node list)" "distinct [5, 6 :: node]" by simp_all
  have ba: "buttons_ok (boxes ?A LB1)" by code_simp
  have bb: "buttons_ok (boxes ?B LB1)" by code_simp
  have ta: "\<not> truthy (activeDescendant (boxes ?A LB1))" by code_simp
  have tb: "truthy (activeDescendant (boxes ?B LB1))" by code_simp
  have ca: "set [5, 6] \<inter> set (children (boxes ?A LB1)) = {}" by code_simp
  have cb: "set [5, 6] \<inter> set (children (boxes ?B LB1)) = {}" by code_simp
  have va: "children (boxes ?A LB1) @ [5, 6] = [0, 1, 2, 5, 6]"
    "Some (eid (elems ?A (hd [5, 6]))) = Some ''opt-5''" "hd [5, 6 :: node] = 5"
    by code_simp+
  have vb: "children (boxes ?B LB1) @ [5, 6] = [0, 1, 2, 5, 6]"
    "activeDescendant (boxes ?B LB1) = Some ''opt-1''"
    by code_simp+
  have a: "\<exists>d'. addItems ?A LB1 [5, 6] = Inr d' \<and>
      children (boxes d' LB1) = [0, 1, 2, 5, 6] \<and>
      last (calls (boxes d' LB1)) = ItemChange ''added'' [5, 6] \<and>
      activeDescendant (boxes d' LB1) = Some ''opt-5'' \<and>
      focused (elems d' 5)"
    using C6_addItems_appends_and_focuses_first[OF i ba] ta ca va by metis
  have b: "\<exists>d'. addItems ?B LB1 [5, 6] = Inr d' \<and>
      children (boxes d' LB1) = [0, 1, 2, 5, 6] \<and>
      last (calls (boxes d' LB1)) = ItemChange ''added'' [5, 6] \<and>
      activeDescendant (boxes d' LB1) = Some ''opt-1''"
    using C6_addItems_appends_and_focuses_first[OF i bb] tb cb vb by metis
  show ?thesis using a b by blast
qed

subsection \<open>Type-ahead search\<close>

text \<open>
  Claim C7 (type-ahead searches, on each keystroke, from the position after the focused
  item and wraps around to the start of the list). The code does so only for the first
  character of a buffer: \<open>searchIndex\<close> is a local variable of \<^verbatim>\<open>findItemToFocus\<close>
  that is reset to 0 on every call and recomputed only while \<^verbatim>\<open>keysSoFar\<close> is empty,
  so from the second character on the search covers the indices from 1 to the end and
  the wrap-around range is empty. Here the list is Bab, X, Bb. Down moves the focus to
  X, the key B moves it to Bb and leaves the buffer B. The key A makes the buffer BA;
  the label of the first item starts with it, yet no item is found and the focus stays
  on Bb.
\<close>

theorem C7_second_character_never_wraps:
  "case exec_all (empty_document True True)
     [(LB1, CreateListItems [''Bab'', ''X'', ''Bb'']),
      (LB1, KeyPress \<lparr>key = DOWN, ctrlKey = False\<rparr>),
      (LB1, KeyPress \<lparr>key = Other 66, ctrlKey = False\<rparr>)] of
     Inl e \<Rightarrow> False
   | Inr d \<Rightarrow>
       children (boxes d LB1) = [0, 1, 2] \<and>
       getElementById d (activeDescendant (boxes d LB1)) = Some 2 \<and>
       keysSoFar (boxes d LB1) = ''B'' \<and>
       label_matches (''B'' @ [char_of (65 :: nat)]) (innerText (elems d 0)) \<and>
       fst (findItemToFocus d LB1 65) = None \<and>
       (case checkKeyPress d LB1 \<lparr>key = Other 65, ctrlKey = False\<rparr> of
          Inl e \<Rightarrow> False
        | Inr d1 \<Rightarrow> keysSoFar (boxes d1 LB1) = ''BA'' \<and>
                    activeDescendant (boxes d1 LB1) = activeDescendant (boxes d LB1))"
  by code_simp

subsection \<open>Moving the focused item up and down\<close>

text \<open>
  In a well-formed document where the active descendant of a listbox is the
  option \<open>c\<close>: if \<open>c\<close> has a predecessor \<open>p\<close>, \<^verbatim>\<open>moveUpItems\<close> swaps the two and
  \<^verbatim>\<open>moveDownItems\<close>, called next, restores the order of the options of every listbox,
  with the elements and the focus as they were; if \<open>c\<close> is the first option,
  \<^verbatim>\<open>moveUpItems\<close> leaves the options, the handler calls, the elements and the focus
  unchanged (it only refreshes the state of the up and down controls).
\<close>

lemma moveUp_moveDown_round_trip:
  assumes "well_formed d"
    and "activeDescendant (boxes d this) = Some (eid (elems d c))"
  shows "(\<forall>xs p ys. children (boxes d this) = xs @ p # c # ys \<longrightarrow>
            (\<exists>d1 d2. moveUpItems d this = Inr d1 \<and>
                children (boxes d1 this) = xs @ c # p # ys \<and>
                moveDownItems d1 this = Inr d2 \<and>
                (\<forall>b. children (boxes d2 b) = children (boxes d b)) \<and>
                elems d2 = elems d \<and>
                activeDescendant (boxes d2 this) = activeDescendant (boxes d this))) \<and>
         (\<forall>ys. children (boxes d this) = c # ys \<longrightarrow>
            (\<exists>d1. moveUpItems d this = Inr d1 \<and>
                (\<forall>b. children (boxes d1 b) = children (boxes d b) \<and>
                     calls (boxes d1 b) = calls (boxes d b)) \<and>
                elems d1 = elems d \<and>
                activeDescendant (boxes d1 this) = activeDescendant (boxes d this)))"
proof (intro conjI allI impI)
  fix xs p ys
  assume ch: "children (boxes d this) = xs @ p # c # ys"
  obtain d1 where d1: "moveUpItems d this = Inr d1" "well_formed d1" "elems d1 = elems d"
    "children (boxes d1 this) = xs @ c # p # ys"
    "\<forall>b. b \<noteq> this \<longrightarrow> children (boxes d1 b) = children (boxes d b)
                \<and> calls (boxes d1 b) = calls (boxes d b)"
    "\<forall>b. activeDescendant (boxes d1 b) = activeDescendant (boxes d b) \<and>
                same_config (boxes d b) (boxes d1 b)"
    using moveUpItems_swap[OF assms(1) ch assms(2)] by blast
  have foc1: "activeDescendant (boxes d1 this) = Some (eid (elems d1 c))"
    using d1(3,6) assms(2) by simp
  obtain d2 where d2: "moveDownItems d1 this = Inr d2" "elems d2 = elems d1"
    "children (boxes d2 this) = xs @ p # c # ys"
    "\<forall>b. b \<noteq> this \<longrightarrow> children (boxes d2 b) = children (boxes d1 b)
                \<and> calls (boxes d2 b) = calls (boxes d1 b)"
    "\<forall>b. activeDescendant (boxes d2 b) = activeDescendant (boxes d1 b) \<and>
                same_config (boxes d1 b) (boxes d2 b)"
    using moveDownItems_swap[OF d1(2) d1(4) foc1] by blast
  have "\<forall>b. children (boxes d2 b) = children (boxes d b)"
    using d1(5) d2(3,4) ch by metis
  then show "\<exists>d1 d2. moveUpItems d this = Inr d1 \<and>
                children (boxes d1 this) = xs @ c # p # ys \<and>
                moveDownItems d1 this = Inr d2 \<and>
                (\<forall>b. children (boxes d2 b) = children (boxes d b)) \<and>
                elems d2 = elems d \<and>
                activeDescendant (boxes d2 this) = activeDescendant (boxes d this)"
    using d1(1,3,4,6) d2(1,2,5) by auto
next
  fix ys
  assume ch: "children (boxes d this) = c # ys"
  show "\<exists>d1. moveUpItems d this = Inr d1 \<and>
                (\<forall>b. children (boxes d1 b) = children (boxes d b) \<and>
                     calls (boxes d1 b) = calls (boxes d b)) \<and>
                elems d1 = elems d \<and>
                activeDescendant (boxes d1 this) = activeDescendant (boxes d this)"
    using moveUpItems_first[OF assms(1) ch assms(2)] by (auto simp: only_controls_def)
qed

lemma moveUp_moveDown_round_trip_example:
  "well_formed (sample_document True True [] (Some ''opt-1'')) \<and>
   well_formed (sample_document True True [] (Some ''opt-0'')) \<and>
   (\<exists>d1 d2. moveUpItems (sample_document True True [] (Some ''opt-1'')) LB1 = Inr d1 \<and>
       children (boxes d1 LB1) = [1, 0, 2] \<and>
       moveDownItems d1 LB1 = Inr d2 \<and>
       children (boxes d2 LB1) = [0, 1, 2]) \<and>
   (\<exists>d1. moveUpItems (sample_document True True [] (Some ''opt-0'')) LB1 = Inr d1 \<and>
       children (boxes d1 LB1) = [0, 1, 2])"
proof -
  let ?A = "sample_document True True [] (Some ''opt-1'')"
  let ?B = "sample_document True True [] (Some ''opt-0'')"
  have wa: "well_formed ?A" by code_simp
  have wb: "well_formed ?B" by code_simp
  have fa: "activeDescendant (boxes ?A LB1) = Some (eid (elems ?A 1))" by code_simp
  have fb: "activeDescendant (boxes ?B LB1) = Some (eid (elems ?B 0))" by code_simp
  have ca: "children (boxes ?A LB1) = [] @ 0 # 1 # [2]" by code_simp
  have cb: "children (boxes ?B LB1) = 0 # [1, 2]" by code_simp
  have cc: "children (boxes ?A LB1) = [0, 1, 2]" by code_simp
  have cd: "children (boxes ?B LB1) = [0, 1, 2]" by code_simp
  from moveUp_moveDown_round_trip[OF wa fa] ca
  have "\<exists>d1 d2. moveUpItems ?A LB1 = Inr d1 \<and>
       children (boxes d1 LB1) = [] @ 1 # 0 # [2] \<and>
       moveDownItems d1 LB1 = Inr d2 \<and>
       (\<forall>b. children (boxes d2 b) = children (boxes ?A b))"
    by blast
  then have a: "\<exists>d1 d2. moveUpItems ?A LB1 = Inr d1 \<and>
       children (boxes d1 LB1) = [1, 0, 2] \<and>
       moveDownItems d1 LB1 = Inr d2 \<and>
       children (boxes d2 LB1) = [0, 1, 2]"
    using cc by auto
  from moveUp_moveDown_round_trip[OF wb fb] cb
  have "\<exists>d1. moveUpItems ?B LB1 = Inr d1 \<and>
       (\<forall>b. children (boxes d1 b) = children (boxes ?B b) \<and>
            calls (boxes d1 b) = calls (boxes ?B b))"
    by blast
  then have b: "\<exists>d1. moveUpItems ?B LB1 = Inr d1 \<and> children (boxes d1 LB1) = [0, 1, 2]"
    using cd by auto
  show ?thesis using wa wb a b by blast
qed

text \<open>
  Claim C8 (with the focused item not at the first position, \<^verbatim>\<open>moveUpItems\<close> followed
  by \<^verbatim>\<open>moveDownItems\<close> restores the order of the items). Both look the focused item
  up with \<^verbatim>\<open>document.getElementById\<close>, and \<^verbatim>\<open>createListItems\<close> numbers its ids from
  \<^verbatim>\<open>item-0\<close> on every call. First, \<^verbatim>\<open>createListItems\<close> is called with the labels a, b
  and then with c on the same listbox, and a click focuses the last option, which has
  the id \<^verbatim>\<open>item-0\<close> like the first. \<^verbatim>\<open>moveUpItems\<close> finds the first option, which has no
  predecessor, and moves nothing; \<^verbatim>\<open>moveDownItems\<close> then moves the first option down: the
  order 0, 1, 2 has become 1, 0, 2. Second, the first listbox gets the labels a and b,
  the second the labels c and d, and a click focuses the second option of the second
  listbox. \<^verbatim>\<open>moveUpItems\<close> there finds the options of the first listbox and calls
  \<^verbatim>\<open>insertBefore\<close> on its own list with them, which throws \<^verbatim>\<open>NotFoundError\<close>.
\<close>

theorem C8_round_trip_changes_the_order:
  "(case exec_all (empty_document False False)
      [(LB1, CreateListItems [''a'', ''b'']),
       (LB1, CreateListItems [''c'']),
       (LB1, ClickItem (Some 2))] of
      Inl e \<Rightarrow> False
    | Inr d \<Rightarrow>
        children (boxes d LB1) = [0, 1, 2] \<and>
        map (\<lambda>n. eid (elems d n)) (children (boxes d LB1)) = [''item-0'', ''item-1'', ''item-0''] \<and>
        filter (\<lambda>n. focused (elems d n)) (children (boxes d LB1)) = [2] \<and>
        activeDescendant (boxes d LB1) = Some (eid (elems d 2)) \<and>
        (case moveUpItems d LB1 of
           Inl e \<Rightarrow> False
         | Inr d1 \<Rightarrow>
             children (boxes d1 LB1) = [0, 1, 2] \<and>
             calls (boxes d1 LB1) = calls (boxes d LB1) \<and>
             (case moveDownItems d1 LB1 of
                Inl e \<Rightarrow> False
              | Inr d2 \<Rightarrow>
                  children (boxes d2 LB1) = [1, 0, 2] \<and>
                  last (calls (boxes d2 LB1)) = ItemChange ''moved_down'' [0]))) \<and>
   (case exec_all (empty_document False False)
      [(LB1, CreateListItems [''a'', ''b'']),
       (LB2, CreateListItems [''c'', ''d'']),
       (LB2, ClickItem (Some 3))] of
      Inl e \<Rightarrow> False
    | Inr d \<Rightarrow>
        children (boxes d LB1) = [0, 1] \<and>
        children (boxes d LB2) = [2, 3] \<and>
        activeDescendant (boxes d LB2) = Some (eid (elems d 3)) \<and>
        (case moveUpItems d LB2 of
           Inl e \<Rightarrow> e = NotFoundError
         | Inr d1 \<Rightarrow> False))"
  by code_simp

subsection \<open>Errors\<close>

text \<open>
  Claim C9 (no operation raises an error to its caller). \<^verbatim>\<open>checkKeyPress\<close> returns early
  when there is no move button, but reads \<^verbatim>\<open>aria-keyshortcuts\<close> of a button that is
  there without checking the attribute for null: with a move button that has no such
  attribute, the Return key on a list of one item throws a \<open>TypeError\<close>.
\<close>

theorem C9_return_key_throws_without_keyshortcuts:
  "case exec_all (empty_document False False)
     [(LB1, CreateListItems [''a'']),
      (LB1, SetupMove \<lparr>aria_disabled = None, aria_keyshortcuts = None\<rparr> LB2),
      (LB1, KeyPress \<lparr>key = RETURN, ctrlKey = False\<rparr>)] of
     Inl e \<Rightarrow> e = TypeError
   | Inr d \<Rightarrow> False"
  by code_simp

subsection \<open>The up and down controls\<close>

text \<open>
  Claim C10 (with reorder controls configured, the up control is enabled iff the focused
  item has a predecessor, also after \<^verbatim>\<open>deleteItems\<close> removes a neighbour of the focused
  item). \<^verbatim>\<open>deleteItems\<close> calls \<^verbatim>\<open>checkUpDownButtons\<close> only through
  \<^verbatim>\<open>clearActiveDescendant\<close>, that is only when the focused item itself is removed. Here a
  multi-select list of a and b has a selected and b focused; deleting removes a, b is
  now the first item and still focused, and the up control is still enabled
  (\<^verbatim>\<open>aria-disabled="false"\<close>).
\<close>

theorem C10_up_control_stale_after_deleteItems:
  "case exec_all (empty_document True True)
     [(LB1, CreateListItems [''a'', ''b'']),
      (LB1, EnableMoveUpDown ex1_up ex1_down),
      (LB1, ClickItem (Some 0)),
      (LB1, KeyPress \<lparr>key = DOWN, ctrlKey = False\<rparr>),
      (LB1, DeleteItems)] of
     Inl e \<Rightarrow> False
   | Inr d \<Rightarrow>
       children (boxes d LB1) = [1] \<and>
       getElementById d (activeDescendant (boxes d LB1)) = Some 1 \<and>
       previousElementSibling d 1 = None \<and>
       map_option aria_disabled (upButton (boxes d LB1)) = Some (Some ''false'')"
  by code_simp

end
